theory Spec2Isabelle
  imports Main "HOL-Library.Multiset"
begin

section \<open>Data model\<close>

text \<open>
  A process descriptor is the Python dictionary with the keys \<^verbatim>\<open>id\<close>, \<^verbatim>\<open>arrival\<close>
  and \<^verbatim>\<open>burst\<close>. Python integers are unbounded, so both numbers are \<^typ>\<open>int\<close>.
  The key \<^verbatim>\<open>id\<close> is named \<open>pid\<close> here, since \<open>id\<close> is the identity function of HOL.
\<close>

record process =
  pid :: string
  arrival :: int
  burst :: int

text \<open>
  A timeline segment is the dictionary with the keys \<^verbatim>\<open>id\<close>, \<^verbatim>\<open>start\<close> and
  \<^verbatim>\<open>end\<close> that the single-processor schedulers append to their timeline.
\<close>

record segment =
  seg_id :: string
  seg_start :: int
  seg_end :: int

definition Idle :: string where
  "Idle = ''Idle''"

definition mk_seg :: "string \<Rightarrow> int \<Rightarrow> int \<Rightarrow> segment" where
  "mk_seg i s e = \<lparr>seg_id = i, seg_start = s, seg_end = e\<rparr>"

definition mk_proc :: "string \<Rightarrow> int \<Rightarrow> int \<Rightarrow> process" where
  "mk_proc i a b = \<lparr>pid = i, arrival = a, burst = b\<rparr>"

text \<open>The Python exceptions that the modelled code can raise.\<close>

datatype py_error = ValueError | TypeError

section \<open>FCFS (question1.py)\<close>

text \<open>
  \<^verbatim>\<open>sorted(processes, key=lambda x: x['arrival'])\<close> is a stable sort, as
  \<^const>\<open>sort_key\<close> is. The body of the \<^verbatim>\<open>for\<close> loop is \<open>fcfs_body\<close>; the loop
  threads \<^verbatim>\<open>timeline\<close> and \<^verbatim>\<open>current_time\<close>. Every descriptor of the model has its
  three integer fields, so nothing in the \<^verbatim>\<open>try\<close> block can raise and the
  \<^verbatim>\<open>except\<close> branch is not reachable.
\<close>

fun fcfs_loop :: "process list \<Rightarrow> segment list \<Rightarrow> int \<Rightarrow> segment list" where
  "fcfs_loop [] timeline current_time = timeline"
| "fcfs_loop (p # ps) timeline current_time =
     (if current_time < arrival p
      then fcfs_loop ps
             (timeline @ [mk_seg Idle current_time (arrival p)]
                       @ [mk_seg (pid p) (arrival p) (arrival p + burst p)])
             (arrival p + burst p)
      else fcfs_loop ps
             (timeline @ [mk_seg (pid p) current_time (current_time + burst p)])
             (current_time + burst p))"

definition fcfs_schedule :: "process list \<Rightarrow> segment list" where
  "fcfs_schedule processes = fcfs_loop (sort_key arrival processes) [] 0"

definition q1_processes :: "process list" where
  "q1_processes =
     [mk_proc ''P1'' 0 5, mk_proc ''P2'' 3 1, mk_proc ''P3'' 10 11,
      mk_proc ''P4'' 12 2, mk_proc ''P5'' 15 12]"

section \<open>SJF, non-preemptive (question2.py)\<close>

record sjf_state =
  sjf_timeline :: "segment list"
  sjf_ready_queue :: "process list"
  sjf_current_time :: int
  completed_processes :: "string set"

text \<open>
  The \<^verbatim>\<open>for\<close> loop that admits arrived processes. \<^verbatim>\<open>p not in ready_queue\<close>
  compares dictionaries by value, as equality of records does.
\<close>

fun admit_ready :: "string set \<Rightarrow> int \<Rightarrow> process list \<Rightarrow> process list \<Rightarrow> process list" where
  "admit_ready cs t [] rq = rq"
| "admit_ready cs t (p # ps) rq =
     (if pid p \<notin> cs \<and> arrival p \<le> t \<and> p \<notin> set rq
      then admit_ready cs t ps (rq @ [p])
      else admit_ready cs t ps rq)"

text \<open>
  One iteration of the \<^verbatim>\<open>while\<close> loop. \<^verbatim>\<open>min(...)\<close> over the arrivals of the
  processes that are not completed raises \<^verbatim>\<open>ValueError\<close> when there is none.
  \<^verbatim>\<open>ready_queue.sort(key=...)\<close> is stable, and \<^verbatim>\<open>pop(0)\<close> runs only on a
  non-empty queue.
\<close>

definition sjf_body :: "process list \<Rightarrow> sjf_state \<Rightarrow> py_error + sjf_state" where
  "sjf_body processes_sorted s =
     (let rq = admit_ready (completed_processes s) (sjf_current_time s)
                 processes_sorted (sjf_ready_queue s)
      in if rq = [] then
           (case filter (\<lambda>p. pid p \<notin> completed_processes s) processes_sorted of
              [] \<Rightarrow> Inl ValueError
            | q # qs \<Rightarrow>
                (let next_arrival = fold min (map arrival qs) (arrival q) in
                 Inr (s\<lparr>sjf_timeline := sjf_timeline s @
                            [mk_seg Idle (sjf_current_time s) next_arrival],
                        sjf_ready_queue := rq,
                        sjf_current_time := next_arrival\<rparr>)))
         else
           (let shortest_process = hd (sort_key burst rq);
                start_time = sjf_current_time s;
                end_time = start_time + burst shortest_process
            in Inr (s\<lparr>sjf_timeline := sjf_timeline s @
                          [mk_seg (pid shortest_process) start_time end_time],
                      sjf_ready_queue := tl (sort_key burst rq),
                      sjf_current_time := end_time,
                      completed_processes :=
                        insert (pid shortest_process) (completed_processes s)\<rparr>)))"

text \<open>\<^verbatim>\<open>while len(completed_processes) < len(processes)\<close>.\<close>

partial_function (option) sjf_loop ::
  "process list \<Rightarrow> nat \<Rightarrow> sjf_state \<Rightarrow> (py_error + segment list) option" where
  "sjf_loop processes_sorted n s =
     (if card (completed_processes s) < n then
        (case sjf_body processes_sorted s of
           Inl e \<Rightarrow> Some (Inl e)
         | Inr s1 \<Rightarrow> sjf_loop processes_sorted n s1)
      else Some (Inr (sjf_timeline s)))"

declare sjf_loop.simps [code]

definition sjf_init :: sjf_state where
  "sjf_init = \<lparr>sjf_timeline = [], sjf_ready_queue = [], sjf_current_time = 0,
               completed_processes = {}\<rparr>"

definition sjf_non_preemptive_schedule :: "process list \<Rightarrow> (py_error + segment list) option" where
  "sjf_non_preemptive_schedule processes =
     sjf_loop (sort_key arrival processes) (length processes) sjf_init"

section \<open>SRTF (question3.py)\<close>

text \<open>
  \<^verbatim>\<open>remaining\<close> is a dictionary from ids to integers, built by a comprehension
  (a later process with the same id overwrites an earlier one). Every key the
  loop reads is the id of a member of \<^verbatim>\<open>processes\<close>, so the lookups cannot fail.
  \<^verbatim>\<open>current_process\<close> is \<^verbatim>\<open>None\<close>, the string \<^verbatim>\<open>"Idle"\<close> or an id.
\<close>

definition init_remaining :: "process list \<Rightarrow> (string \<rightharpoonup> int)" where
  "init_remaining processes = fold (\<lambda>p m. m(pid p \<mapsto> burst p)) processes Map.empty"

text \<open>
  \<^verbatim>\<open>min(available, key=...)\<close>: the candidate is replaced only by an element with
  a strictly smaller key, so the first minimal element wins.
\<close>

fun py_min_key :: "('a \<Rightarrow> int) \<Rightarrow> 'a \<Rightarrow> 'a list \<Rightarrow> 'a" where
  "py_min_key f best [] = best"
| "py_min_key f best (x # xs) =
     (if f x < f best then py_min_key f x xs else py_min_key f best xs)"

record srtf_state =
  srtf_time :: int
  srtf_timeline :: "segment list"
  current_process :: "string option"
  segment_start :: int
  srtf_completed :: "string set"
  srtf_remaining :: "string \<rightharpoonup> int"

definition srtf_close :: "srtf_state \<Rightarrow> segment list" where
  "srtf_close s =
     (case current_process s of
        None \<Rightarrow> srtf_timeline s
      | Some c \<Rightarrow> srtf_timeline s @ [mk_seg c (segment_start s) (srtf_time s)])"

definition srtf_idle_step :: "srtf_state \<Rightarrow> srtf_state" where
  "srtf_idle_step s =
     (if current_process s \<noteq> Some Idle
      then s\<lparr>srtf_timeline := srtf_close s, current_process := Some Idle,
              segment_start := srtf_time s, srtf_time := srtf_time s + 1\<rparr>
      else s\<lparr>srtf_time := srtf_time s + 1\<rparr>)"

definition srtf_run_step :: "process \<Rightarrow> srtf_state \<Rightarrow> srtf_state" where
  "srtf_run_step next_proc s =
     (let s1 = (if current_process s \<noteq> Some (pid next_proc)
                then s\<lparr>srtf_timeline := srtf_close s, current_process := Some (pid next_proc),
                        segment_start := srtf_time s\<rparr>
                else s);
          r = the (srtf_remaining s1 (pid next_proc)) - 1;
          s2 = s1\<lparr>srtf_remaining := (srtf_remaining s1)(pid next_proc \<mapsto> r),
                  srtf_time := srtf_time s1 + 1\<rparr>
      in if r = 0
         then s2\<lparr>srtf_timeline := srtf_timeline s2 @
                     [mk_seg (the (current_process s2)) (segment_start s2) (srtf_time s2)],
                 srtf_completed := insert (pid next_proc) (srtf_completed s2),
                 current_process := None,
                 segment_start := srtf_time s2\<rparr>
         else s2)"

definition srtf_available :: "process list \<Rightarrow> srtf_state \<Rightarrow> process list" where
  "srtf_available processes_sorted s =
     filter (\<lambda>p. arrival p \<le> srtf_time s \<and> pid p \<notin> srtf_completed s) processes_sorted"

definition srtf_step :: "process list \<Rightarrow> srtf_state \<Rightarrow> srtf_state" where
  "srtf_step processes_sorted s =
     (case srtf_available processes_sorted s of
        [] \<Rightarrow> srtf_idle_step s
      | a # as \<Rightarrow>
          srtf_run_step (py_min_key (\<lambda>x. the (srtf_remaining s (pid x))) a as) s)"

partial_function (option) srtf_loop ::
  "process list \<Rightarrow> nat \<Rightarrow> srtf_state \<Rightarrow> segment list option" where
  "srtf_loop processes_sorted n s =
     (if card (srtf_completed s) < n
      then srtf_loop processes_sorted n (srtf_step processes_sorted s)
      else Some (srtf_timeline s))"

declare srtf_loop.simps [code]

definition srtf_init :: "process list \<Rightarrow> srtf_state" where
  "srtf_init processes =
     \<lparr>srtf_time = 0, srtf_timeline = [], current_process = None, segment_start = 0,
      srtf_completed = {}, srtf_remaining = init_remaining processes\<rparr>"

definition sjf_preemptive_schedule :: "process list \<Rightarrow> segment list option" where
  "sjf_preemptive_schedule processes =
     srtf_loop (sort_key arrival processes) (length processes) (srtf_init processes)"

section \<open>Round-Robin, one processor (question4.py)\<close>

record rr_state =
  rr_timeline :: "segment list"
  rr_current_time :: int
  rr_remaining :: "string \<rightharpoonup> int"
  rr_ready_queue :: "process list"
  rr_i :: nat

text \<open>
  \<^verbatim>\<open>while i < n and processes_sorted[i]['arrival'] <= current_time\<close>: the pointer
  \<^verbatim>\<open>i\<close> moves over the arrived processes and appends them to the queue.
\<close>

function admit_arrived :: "process list \<Rightarrow> int \<Rightarrow> nat \<Rightarrow> process list \<Rightarrow> nat \<times> process list" where
  "admit_arrived processes_sorted t i rq =
     (if i < length processes_sorted \<and> arrival (processes_sorted ! i) \<le> t
      then admit_arrived processes_sorted t (Suc i) (rq @ [processes_sorted ! i])
      else (i, rq))"
  by pat_completeness auto
termination
  by (relation "measure (\<lambda>(ps, t, i, rq). length ps - i)") auto

declare admit_arrived.simps [simp del]

definition rr_idle_step :: "process list \<Rightarrow> rr_state \<Rightarrow> rr_state" where
  "rr_idle_step processes_sorted s =
     (let next_arrival = arrival (processes_sorted ! rr_i s);
          (i1, rq1) = admit_arrived processes_sorted next_arrival (rr_i s) (rr_ready_queue s)
      in s\<lparr>rr_timeline := rr_timeline s @ [mk_seg Idle (rr_current_time s) next_arrival],
            rr_current_time := next_arrival,
            rr_ready_queue := rq1,
            rr_i := i1\<rparr>)"

definition rr_dispatch_step :: "process list \<Rightarrow> int \<Rightarrow> rr_state \<Rightarrow> rr_state" where
  "rr_dispatch_step processes_sorted time_quantum s =
     (let proc = hd (rr_ready_queue s);
          exec_time = min time_quantum (the (rr_remaining s (pid proc)));
          start_time = rr_current_time s;
          end_time = rr_current_time s + exec_time;
          r = the (rr_remaining s (pid proc)) - exec_time;
          (i1, rq1) = admit_arrived processes_sorted end_time (rr_i s) (tl (rr_ready_queue s))
      in s\<lparr>rr_timeline := rr_timeline s @ [mk_seg (pid proc) start_time end_time],
            rr_current_time := end_time,
            rr_remaining := (rr_remaining s)(pid proc \<mapsto> r),
            rr_ready_queue := (if r > 0 then rq1 @ [proc] else rq1),
            rr_i := i1\<rparr>)"

definition rr_step :: "process list \<Rightarrow> int \<Rightarrow> rr_state \<Rightarrow> rr_state" where
  "rr_step processes_sorted time_quantum s =
     (if rr_ready_queue s = [] then rr_idle_step processes_sorted s
      else rr_dispatch_step processes_sorted time_quantum s)"

partial_function (option) rr_loop ::
  "process list \<Rightarrow> int \<Rightarrow> rr_state \<Rightarrow> segment list option" where
  "rr_loop processes_sorted time_quantum s =
     (if rr_ready_queue s \<noteq> [] \<or> rr_i s < length processes_sorted
      then rr_loop processes_sorted time_quantum (rr_step processes_sorted time_quantum s)
      else Some (rr_timeline s))"

declare rr_loop.simps [code]

definition rr_init :: "process list \<Rightarrow> rr_state" where
  "rr_init processes =
     (let (i0, rq0) = admit_arrived (sort_key arrival processes) 0 0 []
      in \<lparr>rr_timeline = [], rr_current_time = 0, rr_remaining = init_remaining processes,
          rr_ready_queue = rq0, rr_i = i0\<rparr>)"

definition round_robin_schedule :: "process list \<Rightarrow> int \<Rightarrow> segment list option" where
  "round_robin_schedule processes time_quantum =
     rr_loop (sort_key arrival processes) time_quantum (rr_init processes)"

text \<open>
  The state at the head of the \<^verbatim>\<open>while\<close> loop after \<open>k\<close> iterations, when the
  loop runs that long.
\<close>

fun rr_iterate :: "nat \<Rightarrow> process list \<Rightarrow> int \<Rightarrow> rr_state \<Rightarrow> rr_state option" where
  "rr_iterate 0 sps q s = Some s"
| "rr_iterate (Suc k) sps q s =
     (if rr_ready_queue s \<noteq> [] \<or> rr_i s < length sps
      then rr_iterate k sps q (rr_step sps q s) else None)"

definition q2_processes :: "process list" where
  "q2_processes =
     [mk_proc ''P1'' 0 5, mk_proc ''P2'' 3 1, mk_proc ''P3'' 10 11,
      mk_proc ''P4'' 12 5, mk_proc ''P5'' 15 12]"

section \<open>The schedulers on object references\<close>

text \<open>
  Python hands the process list and its dictionaries to a scheduler by
  reference, and \<^verbatim>\<open>ready_queue\<close>, \<^verbatim>\<open>processes_sorted\<close> and \<^verbatim>\<open>available\<close> are
  lists of references to the caller's dictionaries. In this section these
  objects live in a store: a reference is a number, \<open>dict_at\<close> gives the
  dictionary at a reference, \<open>list_at\<close> the elements of the list object at a
  reference, and \<open>next_list\<close> is the first reference that no list object has
  yet. The four schedulers are translated again, each statement that creates or
  changes a list object as a function on the store. The objects that hold
  strings and numbers only (\<^verbatim>\<open>timeline\<close> with its new dictionaries, \<^verbatim>\<open>remaining\<close>,
  \<^verbatim>\<open>completed\<close>) stay values, as in the sections above. No statement of the
  four functions assigns to a key of a process dictionary, so no function below
  writes \<open>dict_at\<close>.
\<close>

record store =
  dict_at :: "nat \<Rightarrow> process"
  list_at :: "nat \<Rightarrow> nat list"
  next_list :: nat

text \<open>A list display or comprehension creates a list object.\<close>

definition new_list :: "nat list \<Rightarrow> store \<Rightarrow> nat \<times> store" where
  "new_list xs st =
     (next_list st,
      st\<lparr>list_at := (list_at st)(next_list st := xs), next_list := Suc (next_list st)\<rparr>)"

text \<open>\<^verbatim>\<open>sorted(l, key=...)\<close> creates a list object and leaves \<^verbatim>\<open>l\<close> as it is.\<close>

definition sorted_r :: "(process \<Rightarrow> int) \<Rightarrow> nat \<Rightarrow> store \<Rightarrow> nat \<times> store" where
  "sorted_r key l st = new_list (sort_key (\<lambda>p. key (dict_at st p)) (list_at st l)) st"

text \<open>\<^verbatim>\<open>l.append(x)\<close>, \<^verbatim>\<open>l.sort(key=...)\<close> and \<^verbatim>\<open>l.pop(0)\<close> change the object \<^verbatim>\<open>l\<close>.\<close>

definition list_append :: "nat \<Rightarrow> nat \<Rightarrow> store \<Rightarrow> store" where
  "list_append l x st = st\<lparr>list_at := (list_at st)(l := list_at st l @ [x])\<rparr>"

definition list_sort :: "(process \<Rightarrow> int) \<Rightarrow> nat \<Rightarrow> store \<Rightarrow> store" where
  "list_sort key l st =
     st\<lparr>list_at := (list_at st)(l := sort_key (\<lambda>p. key (dict_at st p)) (list_at st l))\<rparr>"

definition list_pop0 :: "nat \<Rightarrow> store \<Rightarrow> nat \<times> store" where
  "list_pop0 l st = (hd (list_at st l), st\<lparr>list_at := (list_at st)(l := tl (list_at st l))\<rparr>)"

text \<open>The dictionaries of the list object at a reference, in order.\<close>

definition load :: "store \<Rightarrow> nat \<Rightarrow> process list" where
  "load st l = map (dict_at st) (list_at st l)"

subsection \<open>FCFS\<close>

fun fcfs_loop_r :: "store \<Rightarrow> nat list \<Rightarrow> segment list \<Rightarrow> int \<Rightarrow> segment list" where
  "fcfs_loop_r st [] timeline current_time = timeline"
| "fcfs_loop_r st (p # ps) timeline current_time =
     (if current_time < arrival (dict_at st p)
      then fcfs_loop_r st ps
             (timeline @ [mk_seg Idle current_time (arrival (dict_at st p))]
                       @ [mk_seg (pid (dict_at st p)) (arrival (dict_at st p))
                            (arrival (dict_at st p) + burst (dict_at st p))])
             (arrival (dict_at st p) + burst (dict_at st p))
      else fcfs_loop_r st ps
             (timeline @ [mk_seg (pid (dict_at st p)) current_time
                            (current_time + burst (dict_at st p))])
             (current_time + burst (dict_at st p)))"

definition fcfs_schedule_r :: "nat \<Rightarrow> store \<Rightarrow> segment list \<times> store" where
  "fcfs_schedule_r processes st =
     (let (processes_sorted, st1) = sorted_r arrival processes st
      in (fcfs_loop_r st1 (list_at st1 processes_sorted) [] 0, st1))"

subsection \<open>SJF, non-preemptive\<close>

text \<open>
  \<^verbatim>\<open>ready_queue\<close> is a list object, so the loop state keeps the other three
  variables. The \<^verbatim>\<open>for\<close> loop runs over the elements of \<^verbatim>\<open>processes_sorted\<close>
  and appends to \<^verbatim>\<open>ready_queue\<close>; \<^verbatim>\<open>p not in ready_queue\<close> compares the
  dictionaries, not the references.
\<close>

record sjf_state_r =
  sjf_timeline_r :: "segment list"
  sjf_current_time_r :: int
  completed_processes_r :: "string set"

fun admit_ready_r :: "string set \<Rightarrow> int \<Rightarrow> nat \<Rightarrow> nat list \<Rightarrow> store \<Rightarrow> store" where
  "admit_ready_r cs t ready_queue [] st = st"
| "admit_ready_r cs t ready_queue (p # ps) st =
     (if pid (dict_at st p) \<notin> cs \<and> arrival (dict_at st p) \<le> t \<and>
         dict_at st p \<notin> set (load st ready_queue)
      then admit_ready_r cs t ready_queue ps (list_append ready_queue p st)
      else admit_ready_r cs t ready_queue ps st)"

definition sjf_body_r ::
  "nat \<Rightarrow> nat \<Rightarrow> sjf_state_r \<Rightarrow> store \<Rightarrow> (py_error + sjf_state_r) \<times> store" where
  "sjf_body_r processes_sorted ready_queue s st =
     (let st1 = admit_ready_r (completed_processes_r s) (sjf_current_time_r s) ready_queue
                  (list_at st processes_sorted) st
      in if list_at st1 ready_queue = [] then
           (case filter (\<lambda>p. pid (dict_at st1 p) \<notin> completed_processes_r s)
                   (list_at st1 processes_sorted) of
              [] \<Rightarrow> (Inl ValueError, st1)
            | q # qs \<Rightarrow>
                (let next_arrival = fold min (map (\<lambda>p. arrival (dict_at st1 p)) qs)
                                      (arrival (dict_at st1 q)) in
                 (Inr (s\<lparr>sjf_timeline_r := sjf_timeline_r s @
                             [mk_seg Idle (sjf_current_time_r s) next_arrival],
                         sjf_current_time_r := next_arrival\<rparr>), st1)))
         else
           (let st2 = list_sort burst ready_queue st1;
                (shortest_process, st3) = list_pop0 ready_queue st2;
                start_time = sjf_current_time_r s;
                end_time = start_time + burst (dict_at st3 shortest_process)
            in (Inr (s\<lparr>sjf_timeline_r := sjf_timeline_r s @
                           [mk_seg (pid (dict_at st3 shortest_process)) start_time end_time],
                       sjf_current_time_r := end_time,
                       completed_processes_r :=
                         insert (pid (dict_at st3 shortest_process))
                           (completed_processes_r s)\<rparr>), st3)))"

text \<open>
  \<^verbatim>\<open>while len(completed_processes) < len(processes)\<close> reads the length of the
  caller's list in every iteration.
\<close>

partial_function (option) sjf_loop_r ::
  "nat \<Rightarrow> nat \<Rightarrow> nat \<Rightarrow> sjf_state_r \<Rightarrow> store \<Rightarrow>
   ((py_error + segment list) \<times> store) option" where
  "sjf_loop_r processes processes_sorted ready_queue s st =
     (if card (completed_processes_r s) < length (list_at st processes) then
        (case sjf_body_r processes_sorted ready_queue s st of
           (Inl e, st1) \<Rightarrow> Some (Inl e, st1)
         | (Inr s1, st1) \<Rightarrow> sjf_loop_r processes processes_sorted ready_queue s1 st1)
      else Some (Inr (sjf_timeline_r s), st))"

declare sjf_loop_r.simps [code]

definition sjf_init_r :: sjf_state_r where
  "sjf_init_r = \<lparr>sjf_timeline_r = [], sjf_current_time_r = 0, completed_processes_r = {}\<rparr>"

definition sjf_non_preemptive_schedule_r ::
  "nat \<Rightarrow> store \<Rightarrow> ((py_error + segment list) \<times> store) option" where
  "sjf_non_preemptive_schedule_r processes st =
     (let (processes_sorted, st1) = sorted_r arrival processes st;
          (ready_queue, st2) = new_list [] st1
      in sjf_loop_r processes processes_sorted ready_queue sjf_init_r st2)"

subsection \<open>SRTF\<close>

text \<open>
  The variables of the SRTF loop hold ids and numbers, so its state is the
  record \<open>srtf_state\<close> again. \<^verbatim>\<open>available\<close> is a new list object in every
  iteration.
\<close>

definition init_remaining_r :: "store \<Rightarrow> nat \<Rightarrow> (string \<rightharpoonup> int)" where
  "init_remaining_r st processes =
     fold (\<lambda>p m. m(pid (dict_at st p) \<mapsto> burst (dict_at st p))) (list_at st processes) Map.empty"

definition srtf_step_r :: "nat \<Rightarrow> srtf_state \<Rightarrow> store \<Rightarrow> srtf_state \<times> store" where
  "srtf_step_r processes_sorted s st =
     (let (available, st1) =
            new_list (filter (\<lambda>p. arrival (dict_at st p) \<le> srtf_time s \<and>
                                   pid (dict_at st p) \<notin> srtf_completed s)
                        (list_at st processes_sorted)) st
      in case list_at st1 available of
           [] \<Rightarrow> (srtf_idle_step s, st1)
         | a # as \<Rightarrow>
             (srtf_run_step
                (dict_at st1
                   (py_min_key (\<lambda>x. the (srtf_remaining s (pid (dict_at st1 x)))) a as))
                s, st1))"

partial_function (option) srtf_loop_r ::
  "nat \<Rightarrow> nat \<Rightarrow> srtf_state \<Rightarrow> store \<Rightarrow> (segment list \<times> store) option" where
  "srtf_loop_r processes_sorted n s st =
     (if card (srtf_completed s) < n
      then (case srtf_step_r processes_sorted s st of
              (s1, st1) \<Rightarrow> srtf_loop_r processes_sorted n s1 st1)
      else Some (srtf_timeline s, st))"

declare srtf_loop_r.simps [code]

definition sjf_preemptive_schedule_r :: "nat \<Rightarrow> store \<Rightarrow> (segment list \<times> store) option" where
  "sjf_preemptive_schedule_r processes st =
     (let remaining = init_remaining_r st processes;
          n = length (list_at st processes);
          (processes_sorted, st1) = sorted_r arrival processes st
      in srtf_loop_r processes_sorted n
           \<lparr>srtf_time = 0, srtf_timeline = [], current_process = None, segment_start = 0,
            srtf_completed = {}, srtf_remaining = remaining\<rparr> st1)"

subsection \<open>Round-Robin, one processor\<close>

record rr_state_r =
  rr_timeline_r :: "segment list"
  rr_current_time_r :: int
  rr_remaining_r :: "string \<rightharpoonup> int"
  rr_i_r :: nat

text \<open>
  \<^verbatim>\<open>while i < n and processes_sorted[i]['arrival'] <= current_time\<close>, with
  \<^verbatim>\<open>ready_queue.append(processes_sorted[i])\<close> in its body.
\<close>

function admit_arrived_r ::
  "nat \<Rightarrow> nat \<Rightarrow> nat \<Rightarrow> int \<Rightarrow> nat \<Rightarrow> store \<Rightarrow> nat \<times> store" where
  "admit_arrived_r processes_sorted ready_queue n t i st =
     (if i < n \<and> arrival (dict_at st (list_at st processes_sorted ! i)) \<le> t
      then admit_arrived_r processes_sorted ready_queue n t (Suc i)
             (list_append ready_queue (list_at st processes_sorted ! i) st)
      else (i, st))"
  by pat_completeness auto
termination
  by (relation "measure (\<lambda>(ps, rq, n, t, i, st). n - i)") auto

declare admit_arrived_r.simps [simp del]

definition rr_step_r ::
  "nat \<Rightarrow> nat \<Rightarrow> nat \<Rightarrow> int \<Rightarrow> rr_state_r \<Rightarrow> store \<Rightarrow> rr_state_r \<times> store" where
  "rr_step_r processes_sorted ready_queue n time_quantum s st =
     (if list_at st ready_queue = [] then
        (let next_arrival = arrival (dict_at st (list_at st processes_sorted ! rr_i_r s));
             (i1, st1) = admit_arrived_r processes_sorted ready_queue n next_arrival
                           (rr_i_r s) st
         in (s\<lparr>rr_timeline_r := rr_timeline_r s @
                   [mk_seg Idle (rr_current_time_r s) next_arrival],
               rr_current_time_r := next_arrival,
               rr_i_r := i1\<rparr>, st1))
      else
        (let (proc, st1) = list_pop0 ready_queue st;
             k = pid (dict_at st1 proc);
             exec_time = min time_quantum (the (rr_remaining_r s k));
             start_time = rr_current_time_r s;
             end_time = rr_current_time_r s + exec_time;
             r = the (rr_remaining_r s k) - exec_time;
             (i1, st2) = admit_arrived_r processes_sorted ready_queue n end_time (rr_i_r s) st1;
             st3 = (if r > 0 then list_append ready_queue proc st2 else st2)
         in (s\<lparr>rr_timeline_r := rr_timeline_r s @ [mk_seg k start_time end_time],
               rr_current_time_r := end_time,
               rr_remaining_r := (rr_remaining_r s)(k \<mapsto> r),
               rr_i_r := i1\<rparr>, st3)))"

partial_function (option) rr_loop_r ::
  "nat \<Rightarrow> nat \<Rightarrow> nat \<Rightarrow> int \<Rightarrow> rr_state_r \<Rightarrow> store \<Rightarrow> (segment list \<times> store) option" where
  "rr_loop_r processes_sorted ready_queue n time_quantum s st =
     (if list_at st ready_queue \<noteq> [] \<or> rr_i_r s < n
      then (case rr_step_r processes_sorted ready_queue n time_quantum s st of
              (s1, st1) \<Rightarrow> rr_loop_r processes_sorted ready_queue n time_quantum s1 st1)
      else Some (rr_timeline_r s, st))"

declare rr_loop_r.simps [code]

definition round_robin_schedule_r ::
  "nat \<Rightarrow> int \<Rightarrow> store \<Rightarrow> (segment list \<times> store) option" where
  "round_robin_schedule_r processes time_quantum st =
     (let remaining = init_remaining_r st processes;
          (processes_sorted, st1) = sorted_r arrival processes st;
          n = length (list_at st1 processes);
          (ready_queue, st2) = new_list [] st1;
          (i0, st3) = admit_arrived_r processes_sorted ready_queue n 0 0 st2
      in rr_loop_r processes_sorted ready_queue n time_quantum
           \<lparr>rr_timeline_r = [], rr_current_time_r = 0, rr_remaining_r = remaining,
            rr_i_r = i0\<rparr> st3)"

subsection \<open>Reading a state on references as a state on dictionaries\<close>

definition sjf_deref :: "store \<Rightarrow> nat \<Rightarrow> sjf_state_r \<Rightarrow> sjf_state" where
  "sjf_deref st ready_queue s =
     \<lparr>sjf_timeline = sjf_timeline_r s,
      sjf_ready_queue = load st ready_queue,
      sjf_current_time = sjf_current_time_r s,
      completed_processes = completed_processes_r s\<rparr>"

definition rr_deref :: "store \<Rightarrow> nat \<Rightarrow> rr_state_r \<Rightarrow> rr_state" where
  "rr_deref st ready_queue s =
     \<lparr>rr_timeline = rr_timeline_r s,
      rr_current_time = rr_current_time_r s,
      rr_remaining = rr_remaining_r s,
      rr_ready_queue = load st ready_queue,
      rr_i = rr_i_r s\<rparr>"

text \<open>
  Every list and dictionary object that exists in the first store is the same
  in the second one.
\<close>

definition unchanged :: "store \<Rightarrow> store \<Rightarrow> bool" where
  "unchanged st st' \<longleftrightarrow>
     dict_at st' = dict_at st \<and> next_list st \<le> next_list st' \<and>
     (\<forall>l<next_list st. list_at st' l = list_at st l)"

text \<open>The second store differs from the first one in the list object \<open>l\<close> at most.\<close>

definition writes_only :: "nat \<Rightarrow> store \<Rightarrow> store \<Rightarrow> bool" where
  "writes_only l st st' \<longleftrightarrow>
     dict_at st' = dict_at st \<and> next_list st' = next_list st \<and>
     (\<forall>k. k \<noteq> l \<longrightarrow> list_at st' k = list_at st k)"

text \<open>
  A call of the scheduler \<open>f_r\<close> on the list object \<open>l\<close> returns what the
  scheduler \<open>f\<close> on values returns for the dictionaries of \<open>l\<close>; it leaves \<open>l\<close>,
  every dictionary and every other list object that exists before the call as
  they are; and a second call on \<open>l\<close>, in the store that the first call leaves,
  returns the same result.
\<close>

definition leaves_input_unchanged ::
  "(nat \<Rightarrow> store \<Rightarrow> ('a \<times> store) option) \<Rightarrow> (process list \<Rightarrow> 'a option) \<Rightarrow>
   nat \<Rightarrow> store \<Rightarrow> bool" where
  "leaves_input_unchanged f_r f l st \<longleftrightarrow>
     (\<exists>y st1 st2. f_r l st = Some (y, st1) \<and> f (load st l) = Some y \<and>
        dict_at st1 = dict_at st \<and> list_at st1 l = list_at st l \<and> unchanged st st1 \<and>
        f_r l st1 = Some (y, st2))"

text \<open>A store with the list object 0, which holds the dictionaries 0 and 1.\<close>

definition example_store :: store where
  "example_store =
     \<lparr>dict_at = (\<lambda>r. if r = 0 then mk_proc ''P1'' 0 3 else mk_proc ''P2'' 1 1),
      list_at = (\<lambda>l. if l = 0 then [0, 1] else []),
      next_list = 1\<rparr>"

section \<open>Multi-processor Round-Robin (question6.py)\<close>

text \<open>
  question6.py is a script: its process list, \<^verbatim>\<open>TIME_QUANTUM\<close> and \<^verbatim>\<open>NUM_PROC\<close>
  are module constants, and its simulation state lives in module variables.
  The model takes the three constants as parameters and threads the variables
  through a record. The process dictionaries of this script carry a fourth key,
  \<^verbatim>\<open>remaining\<close>, which the loop decrements in place.
\<close>

record mprocess = process +
  remaining :: int

definition mk_mproc :: "string \<Rightarrow> int \<Rightarrow> int \<Rightarrow> int \<Rightarrow> mprocess" where
  "mk_mproc i a b r = \<lparr>pid = i, arrival = a, burst = b, remaining = r\<rparr>"

text \<open>
  One entry of \<^verbatim>\<open>processors\<close>. The key \<^verbatim>\<open>idle\<close> is absent until it is first
  written; \<^verbatim>\<open>proc_state.get("idle")\<close> then yields \<^verbatim>\<open>None\<close>.
\<close>

record proc_state =
  proc :: "string option"
  remaining_slice :: int
  event_start :: "int option"
  idle :: "bool option"

text \<open>
  An event is the tuple \<^verbatim>\<open>(id, event_start, end, f"Processor {i+1}")\<close>; the label is
  kept as the number \<open>i + 1\<close>. The second component is whatever
  \<^verbatim>\<open>proc_state["event_start"]\<close> holds, which may be \<^verbatim>\<open>None\<close>.
\<close>

type_synonym event = "string \<times> int option \<times> int \<times> nat"

record sim_state =
  processes :: "mprocess list"
  global_time :: int
  mp_ready_queue :: "string list"
  schedule_events :: "event list"
  finished :: "string set"
  processors :: "proc_state list"

definition add_arrivals :: "int \<Rightarrow> sim_state \<Rightarrow> sim_state" where
  "add_arrivals time s =
     s\<lparr>mp_ready_queue := mp_ready_queue s @ map pid (filter (\<lambda>p. arrival p = time) (processes s))\<rparr>"

definition get_process :: "string \<Rightarrow> mprocess list \<Rightarrow> mprocess option" where
  "get_process k ps = find (\<lambda>p. pid p = k) ps"

text \<open>\<^verbatim>\<open>cur_proc["remaining"] -= 1\<close> on the dictionary that \<^verbatim>\<open>get_process\<close> returned.\<close>

fun dec_remaining :: "string \<Rightarrow> mprocess list \<Rightarrow> mprocess list" where
  "dec_remaining k [] = []"
| "dec_remaining k (p # ps) =
     (if pid p = k then p\<lparr>remaining := remaining p - 1\<rparr> # ps else p # dec_remaining k ps)"

definition set_processor :: "nat \<Rightarrow> proc_state \<Rightarrow> sim_state \<Rightarrow> sim_state" where
  "set_processor i st s = s\<lparr>processors := (processors s)[i := st]\<rparr>"

text \<open>
  First part of the body of \<^verbatim>\<open>for i in range(NUM_PROC)\<close>: a busy processor
  executes one unit; the process finishes, or its slice expires, or it goes on.
\<close>

definition update_running :: "nat \<Rightarrow> sim_state \<Rightarrow> py_error + sim_state" where
  "update_running i s =
     (let st = processors s ! i in
      case proc st of
        None \<Rightarrow> Inr s
      | Some k \<Rightarrow>
          (let st1 = st\<lparr>remaining_slice := remaining_slice st - 1\<rparr> in
           case get_process k (processes s) of
             None \<Rightarrow> Inl TypeError
           | Some cur0 \<Rightarrow>
               (let ps1 = dec_remaining k (processes s);
                    cur_remaining = remaining cur0 - 1;
                    s1 = s\<lparr>processes := ps1\<rparr>
                in if cur_remaining = 0 then
                     Inr (set_processor i
                            (st1\<lparr>proc := None, remaining_slice := 0, event_start := None\<rparr>)
                            (s1\<lparr>schedule_events := schedule_events s1 @
                                   [(pid cur0, event_start st1, global_time s + 1, i + 1)],
                                 finished := insert (pid cur0) (finished s1)\<rparr>))
                   else if remaining_slice st1 = 0 then
                     Inr (set_processor i
                            (st1\<lparr>proc := None, event_start := None\<rparr>)
                            (s1\<lparr>schedule_events := schedule_events s1 @
                                   [(pid cur0, event_start st1, global_time s + 1, i + 1)],
                                 mp_ready_queue := mp_ready_queue s1 @ [pid cur0]\<rparr>))
                   else Inr (set_processor i st1 s1))))"

text \<open>
  Last statement of the body: an idle processor whose \<^verbatim>\<open>idle\<close> flag is true
  records an Idle event once \<^verbatim>\<open>global_time\<close> has passed its \<^verbatim>\<open>event_start\<close>.
  Comparing an integer with \<^verbatim>\<open>None\<close> raises \<^verbatim>\<open>TypeError\<close>.
\<close>

definition record_idle :: "nat \<Rightarrow> sim_state \<Rightarrow> py_error + sim_state" where
  "record_idle i s =
     (let st = processors s ! i in
      if proc st = None \<and> idle st = Some True then
        (case event_start st of
           None \<Rightarrow> Inl TypeError
         | Some es \<Rightarrow>
             if global_time s > es then
               Inr (set_processor i (st\<lparr>event_start := Some (global_time s + 1)\<rparr>)
                      (s\<lparr>schedule_events := schedule_events s @
                             [(Idle, Some es, global_time s + 1, i + 1)]\<rparr>))
             else Inr s)
      else Inr s)"

text \<open>
  Second part of the body: a free processor takes the head of the ready queue
  (\<^verbatim>\<open>continue\<close> skips the rest of the body when that process has finished), or
  starts to count as idle; a busy one clears its \<^verbatim>\<open>idle\<close> flag.
\<close>

definition assign_or_idle :: "int \<Rightarrow> nat \<Rightarrow> sim_state \<Rightarrow> py_error + sim_state" where
  "assign_or_idle tq i s =
     (let st = processors s ! i in
      if proc st = None then
        (case mp_ready_queue s of
           next_pid # rest \<Rightarrow>
             (let s1 = s\<lparr>mp_ready_queue := rest\<rparr> in
              if next_pid \<in> finished s1 then Inr s1
              else
                (case get_process next_pid (processes s1) of
                   None \<Rightarrow> Inl TypeError
                 | Some p \<Rightarrow>
                     record_idle i
                       (set_processor i
                          (st\<lparr>proc := Some next_pid,
                              remaining_slice := min tq (remaining p),
                              event_start := Some (global_time s1)\<rparr>) s1)))
         | [] \<Rightarrow>
             (if idle st = None
              then record_idle i
                     (set_processor i (st\<lparr>idle := Some True, event_start := Some (global_time s)\<rparr>) s)
              else record_idle i s))
      else record_idle i (set_processor i (st\<lparr>idle := Some False\<rparr>) s))"

definition processor_body :: "int \<Rightarrow> nat \<Rightarrow> sim_state \<Rightarrow> py_error + sim_state" where
  "processor_body tq i s =
     (case update_running i s of Inl e \<Rightarrow> Inl e | Inr s1 \<Rightarrow> assign_or_idle tq i s1)"

fun for_processors :: "int \<Rightarrow> nat list \<Rightarrow> sim_state \<Rightarrow> py_error + sim_state" where
  "for_processors tq [] s = Inr s"
| "for_processors tq (i # is) s =
     (case processor_body tq i s of Inl e \<Rightarrow> Inl e | Inr s1 \<Rightarrow> for_processors tq is s1)"

definition time_unit :: "int \<Rightarrow> nat \<Rightarrow> sim_state \<Rightarrow> py_error + sim_state" where
  "time_unit tq np s =
     (case for_processors tq [0..<np] (add_arrivals (global_time s) s) of
        Inl e \<Rightarrow> Inl e
      | Inr s1 \<Rightarrow> Inr (s1\<lparr>global_time := global_time s1 + 1\<rparr>))"

text \<open>
  \<^verbatim>\<open>while len(finished) < len(processes)\<close>. The loop need not end (a process with
  a negative arrival is never queued), so the result is an option.
\<close>

partial_function (option) simulation_loop ::
  "int \<Rightarrow> nat \<Rightarrow> sim_state \<Rightarrow> (py_error + sim_state) option" where
  "simulation_loop tq np s =
     (if card (finished s) < length (processes s) then
        (case time_unit tq np s of
           Inl e \<Rightarrow> Some (Inl e)
         | Inr s1 \<Rightarrow> simulation_loop tq np s1)
      else Some (Inr s))"

declare simulation_loop.simps [code]

definition init_state :: "mprocess list \<Rightarrow> nat \<Rightarrow> sim_state" where
  "init_state ps np =
     \<lparr>processes = ps, global_time = 0, mp_ready_queue = [], schedule_events = [],
      finished = {},
      processors = replicate np \<lparr>proc = None, remaining_slice = 0, event_start = None, idle = None\<rparr>\<rparr>"

definition multi_rr_schedule :: "mprocess list \<Rightarrow> int \<Rightarrow> nat \<Rightarrow> (py_error + event list) option" where
  "multi_rr_schedule ps tq np =
     map_option (map_sum (\<lambda>e. e) schedule_events) (simulation_loop tq np (init_state ps np))"

definition q6_processes :: "mprocess list" where
  "q6_processes =
     [mk_mproc ''P1'' 0 5 5, mk_mproc ''P2'' 3 4 4, mk_mproc ''P3'' 10 11 11,
      mk_mproc ''P4'' 12 5 5, mk_mproc ''P5'' 15 12 12]"

text \<open>The events that the script computes from its own data (see \<open>q6_run\<close> below).\<close>

definition q6_events :: "event list" where
  "q6_events =
     [(''Idle'', Some 0, 2, 2), (''P1'', Some 0, 3, 1),
      (''P1'', Some 2, 5, 1), (''P1'', Some 4, 6, 1),
      (''P2'', Some 3, 6, 2), (''P2'', Some 5, 8, 2),
      (''P3'', Some 10, 13, 1), (''P4'', Some 12, 15, 1),
      (''P3'', Some 12, 15, 2), (''P4'', Some 14, 17, 1),
      (''P3'', Some 14, 17, 2), (''P4'', Some 16, 18, 2),
      (''P5'', Some 16, 19, 1), (''P3'', Some 17, 20, 2),
      (''P5'', Some 18, 21, 1), (''P3'', Some 19, 22, 2),
      (''P5'', Some 20, 23, 1), (''P3'', Some 21, 23, 2),
      (''P5'', Some 22, 25, 1), (''P5'', Some 24, 27, 1),
      (''P5'', Some 26, 29, 1)]"

text \<open>A fixed number of iterations of the body of the simulation loop.\<close>

fun run_units :: "nat \<Rightarrow> int \<Rightarrow> nat \<Rightarrow> sim_state \<Rightarrow> py_error + sim_state" where
  "run_units 0 tq np s = Inr s"
| "run_units (Suc k) tq np s =
     (case time_unit tq np s of Inl e \<Rightarrow> Inl e | Inr s1 \<Rightarrow> run_units k tq np s1)"

text \<open>The state of the script at the head of the loop when \<^verbatim>\<open>global_time\<close> is 5.\<close>

definition q6_state_at_5 :: sim_state where
  "q6_state_at_5 =
     \<lparr>processes =
        [mk_mproc ''P1'' 0 5 1, mk_mproc ''P2'' 3 4 3, mk_mproc ''P3'' 10 11 11,
         mk_mproc ''P4'' 12 5 5, mk_mproc ''P5'' 15 12 12],
      global_time = 5, mp_ready_queue = [],
      schedule_events = [(''Idle'', Some 0, 2, 2), (''P1'', Some 0, 3, 1), (''P1'', Some 2, 5, 1)],
      finished = {},
      processors =
        [\<lparr>proc = Some ''P1'', remaining_slice = 1, event_start = Some 4, idle = Some False\<rparr>,
         \<lparr>proc = Some ''P2'', remaining_slice = 1, event_start = Some 3, idle = Some False\<rparr>]\<rparr>"

text \<open>
  The iteration of the loop at \<open>q6_state_at_5\<close>, step by step. First the body has
  run for the first processor (index 0): P1 finishes and the processor finds the
  queue empty.
\<close>

definition q6_after_first_processor :: sim_state where
  "q6_after_first_processor =
     \<lparr>processes =
        [mk_mproc ''P1'' 0 5 0, mk_mproc ''P2'' 3 4 3, mk_mproc ''P3'' 10 11 11,
         mk_mproc ''P4'' 12 5 5, mk_mproc ''P5'' 15 12 12],
      global_time = 5, mp_ready_queue = [],
      schedule_events = [(''Idle'', Some 0, 2, 2), (''P1'', Some 0, 3, 1), (''P1'', Some 2, 5, 1),
                         (''P1'', Some 4, 6, 1)],
      finished = {''P1''},
      processors =
        [\<lparr>proc = None, remaining_slice = 0, event_start = None, idle = Some False\<rparr>,
         \<lparr>proc = Some ''P2'', remaining_slice = 1, event_start = Some 3, idle = Some False\<rparr>]\<rparr>"

text \<open>
  Then the update of the second processor (index 1): the slice of P2 expires and
  P2 is appended to the queue.
\<close>

definition q6_after_update :: sim_state where
  "q6_after_update =
     \<lparr>processes =
        [mk_mproc ''P1'' 0 5 0, mk_mproc ''P2'' 3 4 2, mk_mproc ''P3'' 10 11 11,
         mk_mproc ''P4'' 12 5 5, mk_mproc ''P5'' 15 12 12],
      global_time = 5, mp_ready_queue = [''P2''],
      schedule_events = [(''Idle'', Some 0, 2, 2), (''P1'', Some 0, 3, 1), (''P1'', Some 2, 5, 1),
                         (''P1'', Some 4, 6, 1), (''P2'', Some 3, 6, 2)],
      finished = {''P1''},
      processors =
        [\<lparr>proc = None, remaining_slice = 0, event_start = None, idle = Some False\<rparr>,
         \<lparr>proc = None, remaining_slice = 0, event_start = None, idle = Some False\<rparr>]\<rparr>"

text \<open>Then the dispatch of the second processor, which takes P2 again.\<close>

definition q6_after_dispatch :: sim_state where
  "q6_after_dispatch =
     \<lparr>processes =
        [mk_mproc ''P1'' 0 5 0, mk_mproc ''P2'' 3 4 2, mk_mproc ''P3'' 10 11 11,
         mk_mproc ''P4'' 12 5 5, mk_mproc ''P5'' 15 12 12],
      global_time = 5, mp_ready_queue = [],
      schedule_events = [(''Idle'', Some 0, 2, 2), (''P1'', Some 0, 3, 1), (''P1'', Some 2, 5, 1),
                         (''P1'', Some 4, 6, 1), (''P2'', Some 3, 6, 2)],
      finished = {''P1''},
      processors =
        [\<lparr>proc = None, remaining_slice = 0, event_start = None, idle = Some False\<rparr>,
         \<lparr>proc = Some ''P2'', remaining_slice = 2, event_start = Some 5, idle = Some False\<rparr>]\<rparr>"

section \<open>The two-phase reading of a time unit\<close>

text \<open>
  The time unit as section 4.5 of the specification words it: first the update of
  every processor, then the dispatch of every free processor in ascending index.
  It is built from the same two parts of the loop body as \<open>processor_body\<close>, and
  only serves the comparison with \<open>time_unit\<close>.
\<close>

fun update_all :: "nat list \<Rightarrow> sim_state \<Rightarrow> py_error + sim_state" where
  "update_all [] s = Inr s"
| "update_all (i # is) s =
     (case update_running i s of Inl e \<Rightarrow> Inl e | Inr s1 \<Rightarrow> update_all is s1)"

fun assign_all :: "int \<Rightarrow> nat list \<Rightarrow> sim_state \<Rightarrow> py_error + sim_state" where
  "assign_all tq [] s = Inr s"
| "assign_all tq (i # is) s =
     (case assign_or_idle tq i s of Inl e \<Rightarrow> Inl e | Inr s1 \<Rightarrow> assign_all tq is s1)"

definition two_phase_unit :: "int \<Rightarrow> nat \<Rightarrow> sim_state \<Rightarrow> py_error + sim_state" where
  "two_phase_unit tq np s =
     (case update_all [0..<np] (add_arrivals (global_time s) s) of
        Inl e \<Rightarrow> Inl e
      | Inr s1 \<Rightarrow>
          (case assign_all tq [0..<np] s1 of
             Inl e \<Rightarrow> Inl e
           | Inr s2 \<Rightarrow> Inr (s2\<lparr>global_time := global_time s2 + 1\<rparr>)))"

definition running :: "py_error + sim_state \<Rightarrow> py_error + string option list" where
  "running r = map_sum (\<lambda>e. e) (\<lambda>s. map proc (processors s)) r"

section \<open>Properties of timelines\<close>

text \<open>
  The total duration of the segments of a timeline that carry the id \<open>k\<close> and are
  not Idle segments.
\<close>

definition seg_total :: "string \<Rightarrow> segment list \<Rightarrow> int" where
  "seg_total k timeline =
     sum_list (map (\<lambda>g. seg_end g - seg_start g)
                   (filter (\<lambda>g. seg_id g = k \<and> seg_id g \<noteq> Idle) timeline))"

text \<open>
  A timeline covers the time from \<open>t\<close> on without gap or overlap: each segment is
  non-empty and starts where the one before it ended. Starts are then strictly
  increasing, and every time unit up to the last end lies in exactly one segment.
\<close>

fun gapless_from :: "int \<Rightarrow> segment list \<Rightarrow> bool" where
  "gapless_from t [] = True"
| "gapless_from t (g # gs) =
     (seg_start g = t \<and> seg_start g < seg_end g \<and> gapless_from (seg_end g) gs)"

text \<open>No two adjacent segments carry the same owner.\<close>

fun coalesced :: "segment list \<Rightarrow> bool" where
  "coalesced (a # b # rest) = (seg_id a \<noteq> seg_id b \<and> coalesced (b # rest))"
| "coalesced [a] = True"
| "coalesced [] = True"

text \<open>The events of processor number \<open>k\<close>, as segments, in the order of their emission.\<close>

definition on_processor :: "nat \<Rightarrow> event list \<Rightarrow> segment list" where
  "on_processor k evs =
     List.map_filter
       (\<lambda>(i, s, e, p). if p = k then map_option (\<lambda>a. mk_seg i a e) s else None) evs"

text \<open>
  The owner of every unit of time of a timeline, in order: a segment \<open>[a, b)\<close>
  contributes \<open>b - a\<close> copies of its owner.
\<close>

definition unit_owners :: "segment list \<Rightarrow> string list" where
  "unit_owners timeline =
     concat (map (\<lambda>g. replicate (nat (seg_end g - seg_start g)) (seg_id g)) timeline)"

text \<open>\<open>covers a b timeline\<close>: the timeline is gapless from \<open>a\<close> and ends at \<open>b\<close>.\<close>

fun covers :: "int \<Rightarrow> int \<Rightarrow> segment list \<Rightarrow> bool" where
  "covers a b [] = (a = b)"
| "covers a b (g # gs) =
     (seg_start g = a \<and> seg_start g < seg_end g \<and> covers (seg_end g) b gs)"

section \<open>Valid input\<close>

text \<open>
  Unique ids, positive bursts, non-negative arrivals. The string \<^verbatim>\<open>"Idle"\<close> is
  the sentinel owner of the timelines and is not the id of a process.
\<close>

definition valid_input :: "process list \<Rightarrow> bool" where
  "valid_input ps \<longleftrightarrow>
     distinct (map pid ps) \<and> (\<forall>p\<in>set ps. 0 < burst p \<and> 0 \<le> arrival p \<and> pid p \<noteq> Idle)"

section \<open>The SRTF policy, read off a timeline\<close>

text \<open>
  \<open>U\<close> lists the owner of each time unit. At time \<open>t\<close> a process has received the
  units of \<open>take t U\<close> that carry its id; it is eligible when it has arrived and
  its remaining time is positive.
\<close>

definition rem_at :: "string list \<Rightarrow> nat \<Rightarrow> process \<Rightarrow> int" where
  "rem_at U t p = burst p - int (count_list (take t U) (pid p))"

definition eligible_at :: "string list \<Rightarrow> nat \<Rightarrow> process \<Rightarrow> bool" where
  "eligible_at U t p \<longleftrightarrow> arrival p \<le> int t \<and> 0 < rem_at U t p"

definition srtf_policy :: "process list \<Rightarrow> string list \<Rightarrow> bool" where
  "srtf_policy ps U \<longleftrightarrow>
     (\<forall>t<length U.
        if \<exists>p\<in>set ps. eligible_at U t p
        then \<exists>p\<in>set ps. eligible_at U t p \<and> U ! t = pid p \<and>
               (\<forall>q\<in>set ps. eligible_at U t q \<longrightarrow> rem_at U t p \<le> rem_at U t q)
        else U ! t = Idle)"

section \<open>Loop invariant and variant of SRTF\<close>

definition srtf_units :: "srtf_state \<Rightarrow> string list" where
  "srtf_units s = unit_owners (srtf_close s)"

definition srtf_shape :: "srtf_state \<Rightarrow> bool" where
  "srtf_shape s \<longleftrightarrow>
     covers 0 (segment_start s) (srtf_timeline s) \<and>
     (case current_process s of
        None \<Rightarrow> segment_start s = srtf_time s
      | Some c \<Rightarrow> segment_start s < srtf_time s)"

definition srtf_inv :: "process list \<Rightarrow> srtf_state \<Rightarrow> bool" where
  "srtf_inv ps s \<longleftrightarrow>
     srtf_shape s \<and>
     (\<forall>p\<in>set ps. srtf_remaining s (pid p) =
                   Some (burst p - int (count_list (srtf_units s) (pid p)))) \<and>
     (\<forall>p\<in>set ps. int (count_list (srtf_units s) (pid p)) \<le> burst p) \<and>
     srtf_completed s = {k \<in> pid ` set ps. srtf_remaining s k = Some 0} \<and>
     srtf_policy ps (srtf_units s) \<and>
     (current_process s \<noteq> None \<longrightarrow> card (srtf_completed s) < length ps)"

definition srtf_merged :: "srtf_state \<Rightarrow> bool" where
  "srtf_merged s \<longleftrightarrow>
     coalesced (srtf_close s) \<and>
     (current_process s = None \<longrightarrow> srtf_timeline s \<noteq> [] \<longrightarrow>
        seg_id (last (srtf_timeline s)) \<in> srtf_completed s)"

definition srtf_measure :: "process list \<Rightarrow> srtf_state \<Rightarrow> nat" where
  "srtf_measure ps s =
     nat (sum_list (map (\<lambda>p. the (srtf_remaining s (pid p))) ps))
     + nat (Max (insert 0 (arrival ` set ps)) - srtf_time s)"

text \<open>A small input on which SRTF preempts: P2 arrives at 1 with a shorter remaining time.\<close>

definition srtf_example :: "process list" where
  "srtf_example = [mk_proc ''P1'' 0 3, mk_proc ''P2'' 1 1]"

section \<open>The SJF policy, read off a timeline\<close>

text \<open>\<open>before_in xs p q\<close>: \<open>q\<close> occurs in \<open>xs\<close> at or after the first occurrence of \<open>p\<close>.\<close>

definition before_in :: "'a list \<Rightarrow> 'a \<Rightarrow> 'a \<Rightarrow> bool" where
  "before_in xs p q \<longleftrightarrow> q \<in> set (dropWhile (\<lambda>x. x \<noteq> p) xs)"

text \<open>
  \<open>p\<close> is chosen before \<open>q\<close>: smaller burst, then earlier arrival, then earlier
  place in the input list.
\<close>

definition sjf_prefers :: "process list \<Rightarrow> process \<Rightarrow> process \<Rightarrow> bool" where
  "sjf_prefers ps p q \<longleftrightarrow>
     burst p < burst q \<or>
     (burst p = burst q \<and>
        (arrival p < arrival q \<or> (arrival p = arrival q \<and> before_in ps p q)))"

text \<open>
  Every segment that is not Idle belongs to a process which had arrived when the
  segment starts, lasts exactly the burst of that process, and is preferred to
  every process that had arrived by then and owns no earlier segment.
\<close>

definition sjf_policy :: "process list \<Rightarrow> segment list \<Rightarrow> bool" where
  "sjf_policy ps timeline \<longleftrightarrow>
     (\<forall>j<length timeline. seg_id (timeline ! j) \<noteq> Idle \<longrightarrow>
        (\<exists>p\<in>set ps. pid p = seg_id (timeline ! j) \<and>
           seg_end (timeline ! j) = seg_start (timeline ! j) + burst p \<and>
           arrival p \<le> seg_start (timeline ! j) \<and>
           (\<forall>q\<in>set ps. arrival q \<le> seg_start (timeline ! j) \<and>
                         pid q \<notin> seg_id ` set (take j timeline)
                         \<longrightarrow> sjf_prefers ps p q)))"

text \<open>The owners of the segments that are not Idle, in order.\<close>

definition owners :: "segment list \<Rightarrow> string list" where
  "owners timeline = map seg_id (filter (\<lambda>g. seg_id g \<noteq> Idle) timeline)"

section \<open>Loop invariant and variant of SJF\<close>

definition sjf_ready :: "process list \<Rightarrow> string set \<Rightarrow> int \<Rightarrow> process list" where
  "sjf_ready sps cs t = filter (\<lambda>p. pid p \<notin> cs \<and> arrival p \<le> t) sps"

definition sjf_inv :: "process list \<Rightarrow> process list \<Rightarrow> sjf_state \<Rightarrow> bool" where
  "sjf_inv ps sps s \<longleftrightarrow>
     covers 0 (sjf_current_time s) (sjf_timeline s) \<and>
     coalesced (sjf_timeline s) \<and>
     set (owners (sjf_timeline s)) = completed_processes s \<and>
     distinct (owners (sjf_timeline s)) \<and>
     completed_processes s \<subseteq> pid ` set ps \<and>
     sjf_policy ps (sjf_timeline s) \<and>
     (\<exists>ta\<le>sjf_current_time s.
        sjf_ready_queue s = sort_key burst (sjf_ready sps (completed_processes s) ta)) \<and>
     (sjf_timeline s \<noteq> [] \<and> seg_id (last (sjf_timeline s)) = Idle \<longrightarrow>
        sjf_ready sps (completed_processes s) (sjf_current_time s) \<noteq> [])"

definition sjf_measure :: "process list \<Rightarrow> process list \<Rightarrow> sjf_state \<Rightarrow> nat" where
  "sjf_measure ps sps s =
     2 * (length ps - card (completed_processes s))
     + (if sjf_ready sps (completed_processes s) (sjf_current_time s) = [] then 1 else 0)"

text \<open>
  A small input with ties: when B completes at time 4, the processes C, D and A
  are ready and all have burst 2.
\<close>

definition sjf_example :: "process list" where
  "sjf_example =
     [mk_proc ''A'' 3 2, mk_proc ''B'' 0 4, mk_proc ''C'' 1 2, mk_proc ''D'' 1 2,
      mk_proc ''E'' 20 2]"

section \<open>Round-Robin: admission\<close>

text \<open>
  Every process that has arrived by \<^verbatim>\<open>current_time\<close> lies before the pointer
  \<^verbatim>\<open>i\<close>, that is, has been appended to the queue.
\<close>

definition rr_admitted :: "process list \<Rightarrow> rr_state \<Rightarrow> bool" where
  "rr_admitted sps s \<longleftrightarrow>
     (\<forall>j<length sps. arrival (sps ! j) \<le> rr_current_time s \<longrightarrow> j < rr_i s)"

text \<open>Every process before the pointer \<^verbatim>\<open>i\<close> has arrived by \<^verbatim>\<open>current_time\<close>.\<close>

definition rr_arrived :: "process list \<Rightarrow> rr_state \<Rightarrow> bool" where
  "rr_arrived sps s \<longleftrightarrow> (\<forall>j<rr_i s. arrival (sps ! j) \<le> rr_current_time s)"

text \<open>The data of the Round-Robin example of the specification, with quantum 2.\<close>

definition rr_example :: "process list" where
  "rr_example = [mk_proc ''P1'' 0 5, mk_proc ''P2'' 3 1, mk_proc ''P3'' 10 11]"

text \<open>The state of that run at the head of the loop after \<open>k\<close> iterations.\<close>

definition rr_example_at :: "nat \<Rightarrow> rr_state" where
  "rr_example_at k = the (rr_iterate k (sort_key arrival rr_example) 2 (rr_init rr_example))"

section \<open>Loop invariant and variant of Round-Robin\<close>

definition rr_inv :: "process list \<Rightarrow> process list \<Rightarrow> rr_state \<Rightarrow> bool" where
  "rr_inv ps sps s \<longleftrightarrow>
     covers 0 (rr_current_time s) (rr_timeline s) \<and>
     rr_i s \<le> length sps \<and>
     rr_admitted sps s \<and>
     distinct (rr_ready_queue s) \<and>
     set (rr_ready_queue s) \<subseteq> set (take (rr_i s) sps) \<and>
     (\<forall>p\<in>set ps. rr_remaining s (pid p) = Some (burst p - seg_total (pid p) (rr_timeline s))) \<and>
     (\<forall>p\<in>set ps. seg_total (pid p) (rr_timeline s) \<le> burst p) \<and>
     (\<forall>p\<in>set (take (rr_i s) sps).
        p \<in> set (rr_ready_queue s) \<longleftrightarrow> seg_total (pid p) (rr_timeline s) < burst p) \<and>
     (\<forall>p\<in>set (drop (rr_i s) sps). seg_total (pid p) (rr_timeline s) = 0)"

definition rr_measure :: "process list \<Rightarrow> process list \<Rightarrow> rr_state \<Rightarrow> nat" where
  "rr_measure ps sps s =
     nat (sum_list (map (\<lambda>p. the (rr_remaining s (pid p))) ps)) + (length sps - rr_i s)"

section \<open>Runs on the data of the scripts\<close>

lemma q6_run: "multi_rr_schedule q6_processes 2 2 = Some (Inr q6_events)"
  by code_simp

lemma q6_reaches_state_at_5:
  "run_units 5 2 2 (init_state q6_processes 2) = Inr q6_state_at_5"
  by code_simp

text \<open>
  On other data the script stops with an exception: a processor that was idle
  keeps its \<^verbatim>\<open>idle\<close> flag when it is given a process, and when that process
  finishes within its first slice the last statement of the body compares
  \<^verbatim>\<open>global_time\<close> with the \<^verbatim>\<open>event_start\<close> that was just reset to \<^verbatim>\<open>None\<close>.
\<close>

lemma multi_rr_type_error_example:
  "multi_rr_schedule [mk_mproc ''A'' 0 5 5, mk_mproc ''B'' 1 1 1] 2 2 = Some (Inl TypeError)"
  by code_simp

section \<open>Timelines and their units\<close>

lemma covers_append:
  "covers a c (xs @ ys) \<longleftrightarrow> (\<exists>b. covers a b xs \<and> covers b c ys)"
  by (induction xs arbitrary: a) auto

lemma covers_snoc:
  "covers a c (xs @ [g]) \<longleftrightarrow> covers a (seg_start g) xs \<and> seg_start g < seg_end g \<and> seg_end g = c"
  by (auto simp: covers_append)

lemma covers_gapless: "covers a b xs \<Longrightarrow> gapless_from a xs"
  by (induction xs arbitrary: a) auto

lemma covers_le: "covers a b xs \<Longrightarrow> a \<le> b"
  by (induction xs arbitrary: a) force+

lemma unit_owners_append [simp]:
  "unit_owners (xs @ ys) = unit_owners xs @ unit_owners ys"
  by (simp add: unit_owners_def)

lemma unit_owners_Nil [simp]: "unit_owners [] = []"
  by (simp add: unit_owners_def)

lemma unit_owners_single [simp]:
  "unit_owners [mk_seg c a b] = replicate (nat (b - a)) c"
  by (simp add: unit_owners_def mk_seg_def)

lemma length_unit_owners: "covers a b xs \<Longrightarrow> length (unit_owners xs) = nat (b - a)"
proof (induction xs arbitrary: a)
  case Nil
  then show ?case by simp
next
  case (Cons g gs)
  then have "length (unit_owners gs) = nat (b - seg_end g)" and "seg_end g \<le> b" and "a < seg_end g" and "seg_start g = a"
    by (auto dest: covers_le)
  then show ?case
    by (simp add: unit_owners_def)
qed

lemma count_list_replicate: "count_list (replicate n c) k = (if k = c then n else 0)"
  by (induction n) auto

lemma seg_total_count:
  "covers a b xs \<Longrightarrow> k \<noteq> Idle \<Longrightarrow> seg_total k xs = int (count_list (unit_owners xs) k)"
proof (induction xs arbitrary: a)
  case Nil
  then show ?case by (simp add: seg_total_def)
next
  case (Cons g gs)
  then have ih: "seg_total k gs = int (count_list (unit_owners gs) k)" and lt: "seg_start g < seg_end g"
    by auto
  have "unit_owners (g # gs) = replicate (nat (seg_end g - seg_start g)) (seg_id g) @ unit_owners gs"
    by (simp add: unit_owners_def)
  moreover have "seg_total k (g # gs) = (if seg_id g = k then seg_end g - seg_start g else 0) + seg_total k gs"
    using Cons.prems(2) by (simp add: seg_total_def)
  ultimately show ?case
    using ih lt by (simp add: count_list_replicate)
qed

section \<open>SRTF: the loop body keeps the invariant\<close>

lemma replicate_nat_Suc:
  "a \<le> b \<Longrightarrow> replicate (nat (b + 1 - a)) c = replicate (nat (b - a)) c @ [c]"
proof -
  assume "a \<le> b"
  then have "nat (b + 1 - a) = Suc (nat (b - a))" by simp
  then show ?thesis by (simp add: replicate_append_same)
qed

lemma srtf_shape_covers: "srtf_shape s \<Longrightarrow> covers 0 (srtf_time s) (srtf_close s)"
  by (auto simp: srtf_shape_def srtf_close_def covers_snoc mk_seg_def split: option.splits)

lemma srtf_shape_time: "srtf_shape s \<Longrightarrow> 0 \<le> srtf_time s"
  by (auto dest!: srtf_shape_covers covers_le)

lemma srtf_units_length: "srtf_shape s \<Longrightarrow> length (srtf_units s) = nat (srtf_time s)"
  using length_unit_owners [OF srtf_shape_covers] by (simp add: srtf_units_def)

lemma srtf_idle_step_units:
  "srtf_shape s \<Longrightarrow> srtf_units (srtf_idle_step s) = srtf_units s @ [Idle]"
  by (auto simp: srtf_shape_def srtf_idle_step_def srtf_units_def srtf_close_def
        replicate_nat_Suc split: option.splits)

lemma srtf_idle_step_shape:
  "srtf_shape s \<Longrightarrow> srtf_shape (srtf_idle_step s)"
  by (auto simp: srtf_shape_def srtf_idle_step_def srtf_close_def covers_snoc mk_seg_def
        split: option.splits)

lemma srtf_run_step_units:
  "srtf_shape s \<Longrightarrow> srtf_units (srtf_run_step p s) = srtf_units s @ [pid p]"
  by (auto simp: srtf_shape_def srtf_run_step_def srtf_units_def srtf_close_def Let_def
        replicate_nat_Suc split: option.splits)

lemma srtf_run_step_shape:
  "srtf_shape s \<Longrightarrow> srtf_shape (srtf_run_step p s)"
  by (auto simp: srtf_shape_def srtf_run_step_def srtf_close_def covers_snoc mk_seg_def Let_def
        split: option.splits)

lemma srtf_run_step_fields:
  "srtf_time (srtf_run_step p s) = srtf_time s + 1"
  "srtf_remaining (srtf_run_step p s) = (srtf_remaining s)(pid p \<mapsto> the (srtf_remaining s (pid p)) - 1)"
  "srtf_completed (srtf_run_step p s) =
     (if the (srtf_remaining s (pid p)) - 1 = 0 then insert (pid p) (srtf_completed s)
      else srtf_completed s)"
  "current_process (srtf_run_step p s) \<noteq> None \<Longrightarrow> the (srtf_remaining s (pid p)) - 1 \<noteq> 0"
  by (cases "current_process s = Some (pid p)"; cases "the (srtf_remaining s (pid p)) - 1 = 0";
      simp add: srtf_run_step_def Let_def)+

lemma srtf_idle_step_fields:
  "srtf_time (srtf_idle_step s) = srtf_time s + 1"
  "srtf_remaining (srtf_idle_step s) = srtf_remaining s"
  "srtf_completed (srtf_idle_step s) = srtf_completed s"
  by (auto simp: srtf_idle_step_def)

lemma py_min_key_mem: "py_min_key f b xs \<in> set (b # xs)"
  by (induction xs arbitrary: b) auto

lemma py_min_key_le_all: "\<forall>y\<in>set (b # xs). f (py_min_key f b xs) \<le> f y"
proof (induction xs arbitrary: b)
  case Nil
  then show ?case by simp
next
  case (Cons x xs)
  show ?case
  proof (cases "f x < f b")
    case True
    with Cons.IH [of x] show ?thesis by auto
  next
    case False
    with Cons.IH [of b] show ?thesis by auto
  qed
qed

lemma py_min_key_le: "y \<in> set (b # xs) \<Longrightarrow> f (py_min_key f b xs) \<le> f y"
  by (rule bspec [OF py_min_key_le_all])

lemma init_remaining_aux:
  "distinct (map pid ps) \<Longrightarrow> p \<in> set ps \<Longrightarrow>
   fold (\<lambda>p m. m(pid p \<mapsto> burst p)) ps m0 (pid p) = Some (burst p)"
proof (induction ps rule: rev_induct)
  case Nil
  then show ?case by simp
next
  case (snoc a ps)
  show ?case
  proof (cases "p = a")
    case True
    then show ?thesis by simp
  next
    case False
    with snoc.prems have mem: "p \<in> set ps" and "pid a \<notin> pid ` set ps" by auto
    then have "pid p \<noteq> pid a" by (metis imageI)
    with snoc mem show ?thesis by simp
  qed
qed

lemma init_remaining_lookup:
  "distinct (map pid ps) \<Longrightarrow> p \<in> set ps \<Longrightarrow> init_remaining ps (pid p) = Some (burst p)"
  by (simp add: init_remaining_def init_remaining_aux)

lemma sum_list_map_upd_other:
  "pid a \<notin> pid ` set qs \<Longrightarrow>
   (\<Sum>p\<leftarrow>qs. the (if pid p = pid a then Some v else m (pid p))) = (\<Sum>p\<leftarrow>qs. the (m (pid p)))"
  by (induction qs) auto

lemma sum_list_map_upd:
  "distinct (map pid ps) \<Longrightarrow> p0 \<in> set ps \<Longrightarrow>
   sum_list (map (\<lambda>p. the ((m(pid p0 \<mapsto> v)) (pid p))) ps)
     = sum_list (map (\<lambda>p. the (m (pid p))) ps) - the (m (pid p0)) + (v::int)"
proof (induction ps)
  case Nil
  then show ?case by simp
next
  case (Cons a ps)
  show ?case
  proof (cases "p0 \<in> set ps")
    case True
    with Cons.prems have "pid a \<noteq> pid p0" by auto
    with Cons True show ?thesis by simp
  next
    case False
    with Cons.prems have pa: "p0 = a" and nin: "pid a \<notin> pid ` set ps" by auto
    show ?thesis
      by (simp add: pa sum_list_map_upd_other [OF nin])
  qed
qed

lemma sum_list_map_nonneg_int:
  "(\<forall>p\<in>set ps. 0 \<le> f p) \<Longrightarrow> (0::int) \<le> sum_list (map f ps)"
  by (induction ps) auto

lemma member_le_sum_list_int:
  "(\<forall>p\<in>set ps. 0 \<le> f p) \<Longrightarrow> p0 \<in> set ps \<Longrightarrow> (f p0 :: int) \<le> sum_list (map f ps)"
proof (induction ps)
  case Nil
  then show ?case by simp
next
  case (Cons a ps)
  then have "0 \<le> sum_list (map f ps)" by (simp add: sum_list_map_nonneg_int)
  with Cons show ?case by auto
qed

lemma srtf_policy_snoc:
  assumes pol: "srtf_policy ps U"
    and new: "if \<exists>p\<in>set ps. eligible_at U (length U) p
        then \<exists>p\<in>set ps. eligible_at U (length U) p \<and> x = pid p \<and>
               (\<forall>q\<in>set ps. eligible_at U (length U) q \<longrightarrow> rem_at U (length U) p \<le> rem_at U (length U) q)
        else x = Idle"
  shows "srtf_policy ps (U @ [x])"
  unfolding srtf_policy_def
proof (intro allI impI)
  fix t assume "t < length (U @ [x])"
  then have tle: "t \<le> length U" by simp
  have r: "rem_at (U @ [x]) t p = rem_at U t p" for p
    using tle by (simp add: rem_at_def)
  have e: "eligible_at (U @ [x]) t p = eligible_at U t p" for p
    by (simp add: eligible_at_def r)
  show "if \<exists>p\<in>set ps. eligible_at (U @ [x]) t p
        then \<exists>p\<in>set ps. eligible_at (U @ [x]) t p \<and> (U @ [x]) ! t = pid p \<and>
               (\<forall>q\<in>set ps. eligible_at (U @ [x]) t q \<longrightarrow> rem_at (U @ [x]) t p \<le> rem_at (U @ [x]) t q)
        else (U @ [x]) ! t = Idle"
  proof (cases "t < length U")
    case True
    then have "(U @ [x]) ! t = U ! t" by (simp add: nth_append)
    with pol True show ?thesis
      unfolding srtf_policy_def e r by simp
  next
    case False
    with tle have "t = length U" by simp
    with new show ?thesis
      unfolding e r by simp
  qed
qed

lemma srtf_available_iff:
  assumes inv: "srtf_inv ps s" and sps: "set sps = set ps"
  shows "p \<in> set (srtf_available sps s) \<longleftrightarrow>
         p \<in> set ps \<and> eligible_at (srtf_units s) (length (srtf_units s)) p"
proof (cases "p \<in> set ps")
  case False
  with sps show ?thesis by (simp add: srtf_available_def)
next
  case True
  from inv have shape: "srtf_shape s"
    and rem: "srtf_remaining s (pid p) = Some (burst p - int (count_list (srtf_units s) (pid p)))"
    and le: "int (count_list (srtf_units s) (pid p)) \<le> burst p"
    and comp: "srtf_completed s = {k \<in> pid ` set ps. srtf_remaining s k = Some 0}"
    using True by (auto simp: srtf_inv_def)
  have len: "int (length (srtf_units s)) = srtf_time s"
    using srtf_units_length [OF shape] srtf_shape_time [OF shape] by simp
  have "pid p \<notin> srtf_completed s \<longleftrightarrow> 0 < burst p - int (count_list (srtf_units s) (pid p))"
    using True rem le by (auto simp: comp)
  with True sps len show ?thesis
    by (simp add: srtf_available_def eligible_at_def rem_at_def)
qed

lemma srtf_idle_step_inv:
  assumes valid: "valid_input ps" and inv: "srtf_inv ps s" and sps: "set sps = set ps"
    and guard: "card (srtf_completed s) < length ps"
    and none: "srtf_available sps s = []"
  shows "srtf_inv ps (srtf_idle_step s)"
proof -
  from inv have shape: "srtf_shape s" by (simp add: srtf_inv_def)
  have units: "srtf_units (srtf_idle_step s) = srtf_units s @ [Idle]"
    by (rule srtf_idle_step_units [OF shape])
  have nidle: "\<forall>p\<in>set ps. Idle \<noteq> pid p"
    using valid by (auto simp: valid_input_def)
  have noel: "\<not> (\<exists>p\<in>set ps. eligible_at (srtf_units s) (length (srtf_units s)) p)"
    using srtf_available_iff [OF inv sps] none by auto
  have pol: "srtf_policy ps (srtf_units s @ [Idle])"
    by (rule srtf_policy_snoc) (use inv noel in \<open>auto simp: srtf_inv_def\<close>)
  show ?thesis
    unfolding srtf_inv_def units srtf_idle_step_fields
    using inv guard pol srtf_idle_step_shape [OF shape] nidle
    by (simp add: srtf_inv_def)
qed

lemma srtf_run_step_inv:
  assumes valid: "valid_input ps" and inv: "srtf_inv ps s" and sps: "set sps = set ps"
    and guard: "card (srtf_completed s) < length ps"
    and av: "srtf_available sps s = a # as"
    and p0: "p0 = py_min_key (\<lambda>x. the (srtf_remaining s (pid x))) a as"
  shows "srtf_inv ps (srtf_run_step p0 s)"
proof -
  let ?U = "srtf_units s"
  from inv have shape: "srtf_shape s"
    and rem: "\<forall>p\<in>set ps. srtf_remaining s (pid p) = Some (burst p - int (count_list ?U (pid p)))"
    and le: "\<forall>p\<in>set ps. int (count_list ?U (pid p)) \<le> burst p"
    and comp: "srtf_completed s = {k \<in> pid ` set ps. srtf_remaining s k = Some 0}"
    and pol: "srtf_policy ps ?U"
    by (auto simp: srtf_inv_def)
  have units: "srtf_units (srtf_run_step p0 s) = ?U @ [pid p0]"
    by (rule srtf_run_step_units [OF shape])
  have mem: "p0 \<in> set (srtf_available sps s)"
    unfolding av p0 by (rule py_min_key_mem)
  then have p0ps: "p0 \<in> set ps" and el0: "eligible_at ?U (length ?U) p0"
    using srtf_available_iff [OF inv sps] by auto
  have remeq: "the (srtf_remaining s (pid q)) = rem_at ?U (length ?U) q" if "q \<in> set ps" for q
    using rem that by (simp add: rem_at_def)
  have minimal: "rem_at ?U (length ?U) p0 \<le> rem_at ?U (length ?U) q"
    if "q \<in> set ps" "eligible_at ?U (length ?U) q" for q
  proof -
    from that have "q \<in> set (a # as)"
      using srtf_available_iff [OF inv sps, of q] av by simp
    then have "the (srtf_remaining s (pid p0)) \<le> the (srtf_remaining s (pid q))"
      unfolding p0 by (rule py_min_key_le)
    with that p0ps show ?thesis by (simp add: remeq)
  qed
  have pol': "srtf_policy ps (?U @ [pid p0])"
    by (rule srtf_policy_snoc [OF pol]) (use p0ps el0 minimal in auto)
  have r0: "the (srtf_remaining s (pid p0)) = burst p0 - int (count_list ?U (pid p0))"
    using rem p0ps by simp
  have pos0: "0 < burst p0 - int (count_list ?U (pid p0))"
    using el0 by (simp add: eligible_at_def rem_at_def)
  have same_burst: "burst p = burst p0" if "p \<in> set ps" "pid p = pid p0" for p
    using rem that p0ps by (metis option.inject add_diff_cancel_right' diff_add_cancel)
  have rem': "\<forall>p\<in>set ps. ((srtf_remaining s)(pid p0 \<mapsto> the (srtf_remaining s (pid p0)) - 1)) (pid p)
        = Some (burst p - int (count_list (?U @ [pid p0]) (pid p)))"
    using rem r0 same_burst by auto
  have le': "\<forall>p\<in>set ps. int (count_list (?U @ [pid p0]) (pid p)) \<le> burst p"
    using le pos0 same_burst by auto
  have comp': "(if the (srtf_remaining s (pid p0)) - 1 = 0 then insert (pid p0) (srtf_completed s)
                else srtf_completed s)
        = {k \<in> pid ` set ps. ((srtf_remaining s)(pid p0 \<mapsto> the (srtf_remaining s (pid p0)) - 1)) k = Some 0}"
    using p0ps pos0 r0 by (auto simp: comp)
  have K: "current_process (srtf_run_step p0 s) \<noteq> None \<longrightarrow>
        card (if the (srtf_remaining s (pid p0)) - 1 = 0 then insert (pid p0) (srtf_completed s)
              else srtf_completed s) < length ps"
    using srtf_run_step_fields(4) [of p0 s] guard by auto
  show ?thesis
    unfolding srtf_inv_def units srtf_run_step_fields(1-3)
    using srtf_run_step_shape [OF shape] rem' le' comp' pol' K
    by simp
qed

lemma srtf_step_inv:
  assumes "valid_input ps" "srtf_inv ps s" "set sps = set ps"
    "card (srtf_completed s) < length ps"
  shows "srtf_inv ps (srtf_step sps s)"
proof (cases "srtf_available sps s")
  case Nil
  with assms show ?thesis
    by (simp add: srtf_step_def srtf_idle_step_inv)
next
  case (Cons a as)
  with assms show ?thesis
    by (simp add: srtf_step_def srtf_run_step_inv)
qed

section \<open>SRTF: termination and the final timeline\<close>

lemma card_pids: "distinct (map pid ps) \<Longrightarrow> card (pid ` set ps) = length ps"
  using distinct_card [of "map pid ps"] by simp

lemma srtf_not_all_arrived:
  assumes valid: "valid_input ps" and inv: "srtf_inv ps s" and sps: "set sps = set ps"
    and guard: "card (srtf_completed s) < length ps"
    and none: "srtf_available sps s = []"
  shows "\<exists>p\<in>set ps. srtf_time s < arrival p"
proof (rule ccontr)
  assume "\<not> ?thesis"
  then have arrived: "\<forall>p\<in>set ps. arrival p \<le> srtf_time s" by auto
  have "pid p \<in> srtf_completed s" if "p \<in> set ps" for p
  proof -
    from none have "p \<notin> set (srtf_available sps s)" by simp
    with that arrived sps show ?thesis by (auto simp: srtf_available_def)
  qed
  then have sub: "pid ` set ps \<subseteq> srtf_completed s" by auto
  from inv have "srtf_completed s \<subseteq> pid ` set ps" by (auto simp: srtf_inv_def)
  then have "finite (srtf_completed s)" by (rule finite_subset) simp
  with sub have "card (pid ` set ps) \<le> card (srtf_completed s)" by (rule card_mono [rotated])
  with guard valid show False by (simp add: card_pids valid_input_def)
qed

lemma srtf_step_measure:
  assumes valid: "valid_input ps" and inv: "srtf_inv ps s" and sps: "set sps = set ps"
    and guard: "card (srtf_completed s) < length ps"
  shows "srtf_measure ps (srtf_step sps s) < srtf_measure ps s"
proof (cases "srtf_available sps s")
  case Nil
  from srtf_not_all_arrived [OF valid inv sps guard Nil]
  obtain p where p: "p \<in> set ps" "srtf_time s < arrival p" by auto
  then have "arrival p \<le> Max (insert 0 (arrival ` set ps))"
    by (intro Max_ge) auto
  with p have "srtf_time s < Max (insert 0 (arrival ` set ps))" by linarith
  then show ?thesis
    by (simp add: srtf_step_def Nil srtf_measure_def srtf_idle_step_fields)
next
  case (Cons a as)
  define p0 where "p0 = py_min_key (\<lambda>x. the (srtf_remaining s (pid x))) a as"
  let ?U = "srtf_units s"
  let ?f = "\<lambda>p. the (srtf_remaining s (pid p))"
  have mem: "p0 \<in> set (srtf_available sps s)"
    unfolding Cons p0_def by (rule py_min_key_mem)
  then have p0ps: "p0 \<in> set ps" and el0: "eligible_at ?U (length ?U) p0"
    using srtf_available_iff [OF inv sps] by auto
  from inv have rem: "\<forall>p\<in>set ps. srtf_remaining s (pid p) = Some (burst p - int (count_list ?U (pid p)))"
    and le: "\<forall>p\<in>set ps. int (count_list ?U (pid p)) \<le> burst p"
    by (auto simp: srtf_inv_def)
  have nonneg: "\<forall>p\<in>set ps. 0 \<le> ?f p"
    using rem le by simp
  have pos0: "1 \<le> ?f p0"
    using el0 rem p0ps by (simp add: eligible_at_def rem_at_def)
  have "?f p0 \<le> sum_list (map ?f ps)"
    by (rule member_le_sum_list_int [OF nonneg p0ps])
  with pos0 have big: "1 \<le> sum_list (map ?f ps)" by simp
  have dist: "distinct (map pid ps)" using valid by (simp add: valid_input_def)
  have "sum_list (map (\<lambda>p. the (((srtf_remaining s)(pid p0 \<mapsto> ?f p0 - 1)) (pid p))) ps)
        = sum_list (map ?f ps) - 1"
    using sum_list_map_upd [OF dist p0ps, of "srtf_remaining s" "?f p0 - 1"] by simp
  with big show ?thesis
    by (simp add: srtf_step_def Cons srtf_measure_def srtf_run_step_fields flip: p0_def)
qed

lemma srtf_init_inv:
  assumes valid: "valid_input ps"
  shows "srtf_inv ps (srtf_init ps)"
proof -
  have dist: "distinct (map pid ps)" using valid by (simp add: valid_input_def)
  have units: "srtf_units (srtf_init ps) = []"
    by (simp add: srtf_units_def srtf_close_def srtf_init_def)
  have look: "\<forall>p\<in>set ps. init_remaining ps (pid p) = Some (burst p)"
    using init_remaining_lookup [OF dist] by simp
  have pos: "\<forall>p\<in>set ps. 0 < burst p" using valid by (simp add: valid_input_def)
  have "{k \<in> pid ` set ps. init_remaining ps k = Some 0} = {}"
    using look pos by auto
  moreover have "srtf_policy ps []" by (simp add: srtf_policy_def)
  moreover have "srtf_shape (srtf_init ps)" by (simp add: srtf_shape_def srtf_init_def)
  ultimately show ?thesis
    unfolding srtf_inv_def units using look pos
    by (simp add: srtf_init_def less_imp_le)
qed

lemma srtf_final:
  assumes valid: "valid_input ps" and inv: "srtf_inv ps s"
    and guard: "\<not> card (srtf_completed s) < length ps"
  shows "gapless_from 0 (srtf_timeline s) \<and> srtf_policy ps (unit_owners (srtf_timeline s)) \<and>
         (\<forall>p\<in>set ps. seg_total (pid p) (srtf_timeline s) = burst p)"
proof -
  from inv guard have cur: "current_process s = None" by (auto simp: srtf_inv_def)
  then have close: "srtf_close s = srtf_timeline s" by (simp add: srtf_close_def)
  from inv have shape: "srtf_shape s"
    and rem: "\<forall>p\<in>set ps. srtf_remaining s (pid p) = Some (burst p - int (count_list (srtf_units s) (pid p)))"
    and comp: "srtf_completed s = {k \<in> pid ` set ps. srtf_remaining s k = Some 0}"
    and pol: "srtf_policy ps (srtf_units s)"
    by (auto simp: srtf_inv_def)
  have cov: "covers 0 (srtf_time s) (srtf_timeline s)"
    using srtf_shape_covers [OF shape] close by simp
  have sub: "srtf_completed s \<subseteq> pid ` set ps" using comp by auto
  have "card (pid ` set ps) \<le> card (srtf_completed s)"
    using guard valid by (simp add: card_pids valid_input_def)
  with sub have "srtf_completed s = pid ` set ps"
    by (intro card_seteq) auto
  with comp have zero: "\<forall>p\<in>set ps. srtf_remaining s (pid p) = Some 0" by auto
  have tot: "seg_total (pid p) (srtf_timeline s) = burst p" if "p \<in> set ps" for p
  proof -
    from that valid have "pid p \<noteq> Idle" by (auto simp: valid_input_def)
    then have "seg_total (pid p) (srtf_timeline s) = int (count_list (unit_owners (srtf_timeline s)) (pid p))"
      by (rule seg_total_count [OF cov])
    with rem zero that show ?thesis by (simp add: srtf_units_def close)
  qed
  from pol have "srtf_policy ps (unit_owners (srtf_timeline s))"
    by (simp add: srtf_units_def close)
  with tot covers_gapless [OF cov] show ?thesis by simp
qed

lemma coalesced_snoc:
  "coalesced (xs @ [g]) \<longleftrightarrow> coalesced xs \<and> (xs \<noteq> [] \<longrightarrow> seg_id (last xs) \<noteq> seg_id g)"
  by (induction xs rule: coalesced.induct) auto

lemma coalesced_snoc2:
  "coalesced (xs @ [g, h]) \<longleftrightarrow> coalesced (xs @ [g]) \<and> seg_id g \<noteq> seg_id h"
  using coalesced_snoc [of "xs @ [g]" h] by simp

lemma srtf_idle_step_merged:
  assumes "srtf_merged s" "Idle \<notin> srtf_completed s"
  shows "srtf_merged (srtf_idle_step s)"
proof (cases "current_process s")
  case None
  with assms show ?thesis
    by (auto simp: srtf_merged_def srtf_idle_step_def srtf_close_def coalesced_snoc coalesced_snoc2 mk_seg_def)
next
  case (Some c)
  with assms show ?thesis
    by (cases "c = Idle")
       (auto simp: srtf_merged_def srtf_idle_step_def srtf_close_def coalesced_snoc coalesced_snoc2 mk_seg_def)
qed

lemma srtf_run_step_merged:
  assumes "srtf_merged s" "pid p \<notin> srtf_completed s"
  shows "srtf_merged (srtf_run_step p s)"
proof (cases "current_process s")
  case None
  with assms show ?thesis
    by (cases "the (srtf_remaining s (pid p)) - 1 = 0")
       (auto simp: srtf_merged_def srtf_run_step_def srtf_close_def coalesced_snoc coalesced_snoc2 mk_seg_def Let_def)
next
  case (Some c)
  with assms show ?thesis
    by (cases "c = pid p"; cases "the (srtf_remaining s (pid p)) - 1 = 0")
       (auto simp: srtf_merged_def srtf_run_step_def srtf_close_def coalesced_snoc coalesced_snoc2 mk_seg_def Let_def)
qed

lemma srtf_step_merged:
  assumes valid: "valid_input ps" and inv: "srtf_inv ps s" and sps: "set sps = set ps"
    and m: "srtf_merged s"
  shows "srtf_merged (srtf_step sps s)"
proof (cases "srtf_available sps s")
  case Nil
  from inv have "srtf_completed s \<subseteq> pid ` set ps" by (auto simp: srtf_inv_def)
  moreover have "Idle \<notin> pid ` set ps" using valid by (auto simp: valid_input_def)
  ultimately have "Idle \<notin> srtf_completed s" by auto
  with m Nil show ?thesis by (simp add: srtf_step_def srtf_idle_step_merged)
next
  case (Cons a as)
  define p0 where "p0 = py_min_key (\<lambda>x. the (srtf_remaining s (pid x))) a as"
  have "p0 \<in> set (srtf_available sps s)"
    unfolding Cons p0_def by (rule py_min_key_mem)
  then have "pid p0 \<notin> srtf_completed s" by (simp add: srtf_available_def)
  with m show ?thesis
    by (simp add: srtf_step_def Cons srtf_run_step_merged flip: p0_def)
qed

lemma srtf_init_merged: "srtf_merged (srtf_init ps)"
  by (simp add: srtf_merged_def srtf_init_def srtf_close_def)

lemma srtf_final_merged:
  assumes "srtf_inv ps s" "srtf_merged s" "\<not> card (srtf_completed s) < length ps"
  shows "coalesced (srtf_timeline s)"
proof -
  from assms have "current_process s = None" by (auto simp: srtf_inv_def)
  with assms(2) show ?thesis by (simp add: srtf_merged_def srtf_close_def)
qed

lemma srtf_loop_total:
  assumes valid: "valid_input ps" and sps: "set sps = set ps"
  shows "srtf_inv ps s \<Longrightarrow> srtf_merged s \<Longrightarrow>
         \<exists>tml. srtf_loop sps (length ps) s = Some tml \<and>
               gapless_from 0 tml \<and> coalesced tml \<and> srtf_policy ps (unit_owners tml) \<and>
               (\<forall>p\<in>set ps. seg_total (pid p) tml = burst p)"
proof (induction "srtf_measure ps s" arbitrary: s rule: less_induct)
  case less
  show ?case
  proof (cases "card (srtf_completed s) < length ps")
    case True
    have "srtf_inv ps (srtf_step sps s)"
      by (rule srtf_step_inv [OF valid less.prems(1) sps True])
    moreover have "srtf_merged (srtf_step sps s)"
      by (rule srtf_step_merged [OF valid less.prems(1) sps less.prems(2)])
    moreover have "srtf_measure ps (srtf_step sps s) < srtf_measure ps s"
      by (rule srtf_step_measure [OF valid less.prems(1) sps True])
    ultimately obtain tml where "srtf_loop sps (length ps) (srtf_step sps s) = Some tml"
      "gapless_from 0 tml" "coalesced tml" "srtf_policy ps (unit_owners tml)"
      "\<forall>p\<in>set ps. seg_total (pid p) tml = burst p"
      using less.hyps by blast
    moreover have "srtf_loop sps (length ps) s = srtf_loop sps (length ps) (srtf_step sps s)"
      using True by (subst srtf_loop.simps) simp
    ultimately show ?thesis by auto
  next
    case False
    then have "srtf_loop sps (length ps) s = Some (srtf_timeline s)"
      by (subst srtf_loop.simps) simp
    with srtf_final [OF valid less.prems(1) False] srtf_final_merged [OF less.prems False]
    show ?thesis by simp
  qed
qed

lemma srtf_total_correctness:
  assumes valid: "valid_input ps"
  shows "\<exists>tml. sjf_preemptive_schedule ps = Some tml \<and>
               gapless_from 0 tml \<and> coalesced tml \<and> srtf_policy ps (unit_owners tml) \<and>
               (\<forall>p\<in>set ps. seg_total (pid p) tml = burst p)"
  unfolding sjf_preemptive_schedule_def
  by (rule srtf_loop_total [OF valid _ srtf_init_inv [OF valid] srtf_init_merged]) simp

lemma srtf_policy_preempts:
  assumes dist: "distinct (map pid ps)" and pol: "srtf_policy ps U"
    and t: "t < length U" and p: "p \<in> set ps" and q: "q \<in> set ps"
    and el: "eligible_at U t q" and lt: "rem_at U t q < rem_at U t p"
  shows "U ! t \<noteq> pid p"
proof
  assume eq: "U ! t = pid p"
  from pol t q el obtain p' where p': "p' \<in> set ps" "U ! t = pid p'"
    and least: "\<forall>q\<in>set ps. eligible_at U t q \<longrightarrow> rem_at U t p' \<le> rem_at U t q"
    unfolding srtf_policy_def by (metis (no_types, lifting))
  from dist p p' eq have "p' = p"
    by (metis distinct_map inj_onD)
  with least q el lt show False by auto
qed

section \<open>Segments of a split run\<close>

lemma gapless_from_positive: "gapless_from a tml \<Longrightarrow> g \<in> set tml \<Longrightarrow> seg_start g < seg_end g"
  by (induction tml arbitrary: a) auto

lemma member_le_filter_sum:
  "(\<forall>x\<in>set xs. 0 \<le> f x) \<Longrightarrow> y \<in> set xs \<Longrightarrow> P y \<Longrightarrow> (f y :: int) \<le> sum_list (map f (filter P xs))"
  by (rule member_le_sum_list_int) auto

lemma two_members_le_filter_sum:
  "(\<forall>x\<in>set xs. 0 \<le> f x) \<Longrightarrow> i < j \<Longrightarrow> j < length xs \<Longrightarrow> P (xs ! i) \<Longrightarrow> P (xs ! j) \<Longrightarrow>
   (f (xs ! i) :: int) + f (xs ! j) \<le> sum_list (map f (filter P xs))"
proof (induction xs arbitrary: i j)
  case Nil
  then show ?case by simp
next
  case (Cons x xs)
  from Cons.prems obtain j' where j: "j = Suc j'" by (cases j) auto
  show ?case
  proof (cases i)
    case 0
    have "f (xs ! j') \<le> sum_list (map f (filter P xs))"
      using Cons.prems j by (intro member_le_filter_sum) auto
    with 0 j Cons.prems show ?thesis by simp
  next
    case (Suc i')
    have "f (xs ! i') + f (xs ! j') \<le> sum_list (map f (filter P xs))"
      using Cons.prems j Suc by (intro Cons.IH) auto
    with Suc j Cons.prems show ?thesis by simp
  qed
qed

lemma split_segment_shorter:
  assumes gap: "gapless_from a tml" and ij: "i < length tml" "j < length tml" "i \<noteq> j"
    and k: "seg_id (tml ! i) = k" "seg_id (tml ! j) = k" "k \<noteq> Idle"
  shows "seg_end (tml ! i) - seg_start (tml ! i) < seg_total k tml"
proof -
  let ?f = "\<lambda>g. seg_end g - seg_start g"
  let ?P = "\<lambda>g. seg_id g = k \<and> seg_id g \<noteq> Idle"
  have nonneg: "\<forall>g\<in>set tml. 0 \<le> ?f g"
    using gapless_from_positive [OF gap] by fastforce
  have posj: "0 < ?f (tml ! j)"
    using gapless_from_positive [OF gap] ij by simp
  have "?f (tml ! i) + ?f (tml ! j) \<le> sum_list (map ?f (filter ?P tml))"
  proof (cases "i < j")
    case True
    then show ?thesis
      using two_members_le_filter_sum [OF nonneg True ij(2), of ?P] k by simp
  next
    case False
    with ij have ji: "j < i" by simp
    then show ?thesis
      using two_members_le_filter_sum [OF nonneg ji ij(1), of ?P] k by simp
  qed
  with posj show ?thesis by (simp add: seg_total_def)
qed

section \<open>Stable sorting and the order of a list\<close>

lemma admit_ready_eq:
  "distinct ps \<Longrightarrow>
   admit_ready cs t ps rq = rq @ filter (\<lambda>p. pid p \<notin> cs \<and> arrival p \<le> t \<and> p \<notin> set rq) ps"
proof (induction ps arbitrary: rq)
  case Nil
  then show ?case by simp
next
  case (Cons a ps)
  then have d: "distinct ps" and a: "a \<notin> set ps" by auto
  have same: "filter (\<lambda>p. pid p \<notin> cs \<and> arrival p \<le> t \<and> p \<notin> set (rq @ [a])) ps
        = filter (\<lambda>p. pid p \<notin> cs \<and> arrival p \<le> t \<and> p \<notin> set rq) ps"
    using a by (intro filter_cong) auto
  show ?case
    using Cons.IH [OF d] same by simp
qed

lemma filter_arrival_split:
  "sorted (map arrival sps) \<Longrightarrow> ta \<le> t \<Longrightarrow>
   filter (\<lambda>p. Q p \<and> arrival p \<le> ta) sps @ filter (\<lambda>p. Q p \<and> ta < arrival p \<and> arrival p \<le> t) sps
   = filter (\<lambda>p. Q p \<and> arrival p \<le> t) sps"
proof (induction sps)
  case Nil
  then show ?case by simp
next
  case (Cons a sps)
  then have later: "\<forall>x\<in>set sps. arrival a \<le> arrival x" and srt: "sorted (map arrival sps)"
    by auto
  show ?case
  proof (cases "arrival a \<le> ta")
    case True
    with Cons.IH [OF srt Cons.prems(2)] Cons.prems(2) show ?thesis by auto
  next
    case False
    with later have all: "\<forall>x\<in>set sps. ta < arrival x" by fastforce
    then have e: "filter (\<lambda>p. Q p \<and> arrival p \<le> ta) sps = []"
      by (auto simp: filter_empty_conv)
    have f: "filter (\<lambda>p. Q p \<and> ta < arrival p \<and> arrival p \<le> t) sps
           = filter (\<lambda>p. Q p \<and> arrival p \<le> t) sps"
      using all by (intro filter_cong) auto
    from False e f show ?thesis by auto
  qed
qed

lemma before_in_hd_filter:
  "filter P xs \<noteq> [] \<Longrightarrow> q \<in> set xs \<Longrightarrow> P q \<Longrightarrow> before_in xs (hd (filter P xs)) q"
proof (induction xs)
  case Nil
  then show ?case by simp
next
  case (Cons x xs)
  show ?case
  proof (cases "P x")
    case True
    with Cons.prems show ?thesis by (simp add: before_in_def)
  next
    case False
    with Cons.prems have ne: "filter P xs \<noteq> []" and q: "q \<in> set xs" by auto
    then have "hd (filter P xs) \<in> set (filter P xs)" by (intro hd_in_set)
    then have "P (hd (filter P xs))" by simp
    with False have "x \<noteq> hd (filter P xs)" by auto
    with Cons.IH [OF ne q Cons.prems(3)] False show ?thesis
      by (simp add: before_in_def)
  qed
qed

lemma dropWhile_filter_commute:
  "P p \<Longrightarrow> dropWhile (\<lambda>x. x \<noteq> p) (filter P xs) = filter P (dropWhile (\<lambda>x. x \<noteq> p) xs)"
  by (induction xs) auto

lemma before_in_filter_iff:
  "P p \<Longrightarrow> before_in (filter P xs) p q \<longleftrightarrow> P q \<and> before_in xs p q"
  by (auto simp: before_in_def dropWhile_filter_commute)

lemma before_in_sorted:
  assumes "sorted (map g xs)" "before_in xs p q"
  shows "g p \<le> g q"
proof -
  from assms(2) have ne: "dropWhile (\<lambda>x. x \<noteq> p) xs \<noteq> []"
    unfolding before_in_def by (cases "dropWhile (\<lambda>x. x \<noteq> p) xs") auto
  then obtain rest where dw: "dropWhile (\<lambda>x. x \<noteq> p) xs = p # rest"
    by (metis (mono_tags, lifting) hd_dropWhile list.collapse)
  have "sorted (map g (takeWhile (\<lambda>x. x \<noteq> p) xs @ dropWhile (\<lambda>x. x \<noteq> p) xs))"
    using assms(1) by simp
  then have "sorted (map g (p # rest))"
    unfolding dw by (simp add: sorted_append)
  with assms(2) dw show ?thesis by (auto simp: before_in_def)
qed

lemma hd_sort_key_min:
  assumes "xs \<noteq> []" "y \<in> set xs"
  shows "f (hd (sort_key f xs)) \<le> f y"
proof -
  from assms(1) have ne: "sort_key f xs \<noteq> []" by (metis length_0_conv length_sort)
  then obtain h rest where s: "sort_key f xs = h # rest" by (cases "sort_key f xs") auto
  have "sorted (map f (h # rest))" using sorted_sort_key [of f xs] s by simp
  moreover have "y \<in> set (h # rest)" using assms(2) set_sort [of f xs] s by simp
  ultimately show ?thesis using s by auto
qed

lemma hd_sort_key_mem: "xs \<noteq> [] \<Longrightarrow> hd (sort_key f xs) \<in> set xs"
  by (metis hd_in_set length_0_conv length_sort set_sort)

lemma hd_sort_key_first:
  assumes "xs \<noteq> []"
  shows "hd (filter (\<lambda>y. f y = f (hd (sort_key f xs))) xs) = hd (sort_key f xs)"
proof -
  from assms have ne: "sort_key f xs \<noteq> []" by (metis length_0_conv length_sort)
  then obtain h rest where s: "sort_key f xs = h # rest" by (cases "sort_key f xs") auto
  have "filter (\<lambda>y. f y = f h) xs = filter (\<lambda>y. f y = f h) (sort_key f xs)"
    by (simp add: sort_key_stable)
  also have "\<dots> = h # filter (\<lambda>y. f y = f h) rest" by (simp add: s)
  finally show ?thesis by (simp add: s)
qed

lemma hd_sort_key_before:
  assumes "xs \<noteq> []" "q \<in> set xs" "f q = f (hd (sort_key f xs))"
  shows "before_in xs (hd (sort_key f xs)) q"
proof -
  let ?h = "hd (sort_key f xs)"
  have "?h \<in> set xs" by (rule hd_sort_key_mem [OF assms(1)])
  then have ne: "filter (\<lambda>y. f y = f ?h) xs \<noteq> []" by (auto simp: filter_empty_conv)
  from before_in_hd_filter [OF ne assms(2), of ] assms(3) hd_sort_key_first [OF assms(1), of f]
  show ?thesis by simp
qed

lemma fold_min_Min: "fold min xs (x::int) = Min (set (x # xs))"
  by (rule Min.set_eq_fold [symmetric])

lemma filter_hd_distinct:
  "distinct (map f (h # rest)) \<Longrightarrow> filter (\<lambda>x. f x \<noteq> f h) (h # rest) = rest"
  by (auto simp: filter_id_conv image_iff)

section \<open>SJF: the ready queue and the choice\<close>

lemma sjf_queue_after_admit:
  assumes d: "distinct sps" and srt: "sorted (map arrival sps)" and le: "ta \<le> t"
    and R: "R = sort_key burst (sjf_ready sps C ta)"
  shows "sort_key burst (admit_ready C t sps R) = sort_key burst (sjf_ready sps C t)"
proof -
  define new where "new = filter (\<lambda>p. pid p \<notin> C \<and> ta < arrival p \<and> arrival p \<le> t) sps"
  have "filter (\<lambda>p. pid p \<notin> C \<and> arrival p \<le> t \<and> p \<notin> set R) sps = new"
    unfolding new_def R by (intro filter_cong) (auto simp: sjf_ready_def)
  then have rq: "admit_ready C t sps R = R @ new"
    by (simp add: admit_ready_eq [OF d])
  have split: "sjf_ready sps C ta @ new = sjf_ready sps C t"
    unfolding sjf_ready_def new_def by (rule filter_arrival_split [OF srt le])
  have "sort_key burst (sjf_ready sps C t) = sort_key burst (R @ new)"
  proof (rule properties_for_sort_key)
    show "mset (sort_key burst (R @ new)) = mset (sjf_ready sps C t)"
      by (simp add: R flip: split)
  next
    fix k
    have sw: "filter (\<lambda>x. burst k = burst x) ys = filter (\<lambda>x. burst x = burst k) ys" for ys :: "process list"
      by (rule filter_cong) auto
    show "filter (\<lambda>x. burst k = burst x) (sort_key burst (R @ new))
        = filter (\<lambda>x. burst k = burst x) (sjf_ready sps C t)"
      unfolding sw by (simp add: sort_key_stable R flip: split)
  next
    show "sorted (map burst (sort_key burst (R @ new)))" by simp
  qed
  with rq show ?thesis by simp
qed

lemma sjf_admit_empty_iff:
  assumes "distinct sps" "sorted (map arrival sps)" "ta \<le> t"
    "R = sort_key burst (sjf_ready sps C ta)"
  shows "admit_ready C t sps R = [] \<longleftrightarrow> sjf_ready sps C t = []"
proof -
  have "length (sort_key burst (admit_ready C t sps R)) = length (sort_key burst (sjf_ready sps C t))"
    using sjf_queue_after_admit [OF assms] by simp
  then have "length (admit_ready C t sps R) = length (sjf_ready sps C t)" by simp
  then show ?thesis by (metis length_0_conv)
qed

lemma sjf_choice:
  assumes sps: "sps = sort_key arrival ps"
    and q: "q \<in> set (sjf_ready sps C t)"
  shows "sjf_prefers ps (hd (sort_key burst (sjf_ready sps C t))) q"
proof -
  let ?F = "sjf_ready sps C t"
  let ?h = "hd (sort_key burst ?F)"
  from q have ne: "?F \<noteq> []" by auto
  have le: "burst ?h \<le> burst q" by (rule hd_sort_key_min [OF ne q])
  have hF: "?h \<in> set ?F" by (rule hd_sort_key_mem [OF ne])
  show ?thesis
  proof (cases "burst ?h < burst q")
    case True
    then show ?thesis by (simp add: sjf_prefers_def)
  next
    case False
    with le have eq: "burst q = burst ?h" by simp
    have "before_in ?F ?h q" by (rule hd_sort_key_before [OF ne q eq])
    then have b: "before_in sps ?h q"
      using hF unfolding sjf_ready_def by (subst (asm) before_in_filter_iff) auto
    have srt: "sorted (map arrival sps)" by (simp add: sps)
    have ale: "arrival ?h \<le> arrival q" by (rule before_in_sorted [OF srt b])
    show ?thesis
    proof (cases "arrival ?h < arrival q")
      case True
      with eq show ?thesis by (simp add: sjf_prefers_def)
    next
      case False
      with ale have aeq: "arrival q = arrival ?h" by simp
      have "before_in (filter (\<lambda>y. arrival y = arrival ?h) sps) ?h q"
        using b aeq by (subst before_in_filter_iff) auto
      then have "before_in (filter (\<lambda>y. arrival y = arrival ?h) ps) ?h q"
        by (simp add: sps sort_key_stable)
      then have "before_in ps ?h q"
        by (subst (asm) before_in_filter_iff) auto
      with eq aeq show ?thesis by (simp add: sjf_prefers_def)
    qed
  qed
qed

lemma sjf_ready_insert:
  "sjf_ready sps (insert k C) t = filter (\<lambda>p. pid p \<noteq> k) (sjf_ready sps C t)"
  unfolding sjf_ready_def by (auto intro: filter_cong)

lemma sjf_ready_tl:
  assumes d: "distinct (map pid sps)" and ne: "sjf_ready sps C t \<noteq> []"
  shows "tl (sort_key burst (sjf_ready sps C t))
       = sort_key burst (sjf_ready sps (insert (pid (hd (sort_key burst (sjf_ready sps C t)))) C) t)"
proof -
  let ?S = "sort_key burst (sjf_ready sps C t)"
  from ne have "?S \<noteq> []" by (metis length_0_conv length_sort)
  then obtain h rest where s: "?S = h # rest" by (cases ?S) auto
  have "distinct (map pid (sjf_ready sps C t))"
    unfolding sjf_ready_def by (rule distinct_map_filter [OF d])
  then have "distinct (map pid ?S)"
    by (simp add: distinct_map)
  then have "filter (\<lambda>x. pid x \<noteq> pid h) (h # rest) = rest"
    unfolding s by (rule filter_hd_distinct)
  then have "filter (\<lambda>x. pid x \<noteq> pid h) ?S = rest" by (simp add: s)
  then show ?thesis
    by (simp add: s sjf_ready_insert filter_sort [symmetric] del: filter.simps)
qed

section \<open>SJF: the loop body keeps the invariant\<close>

lemma sorted_input_facts:
  assumes "valid_input ps" "sps = sort_key arrival ps"
  shows "distinct sps" "distinct (map pid sps)" "sorted (map arrival sps)" "set sps = set ps"
  using assms by (auto simp: valid_input_def distinct_map)

lemma owners_snoc:
  "owners (T @ [g]) = (if seg_id g = Idle then owners T else owners T @ [seg_id g])"
  by (simp add: owners_def)

lemma owners_subset: "set (owners T) \<subseteq> seg_id ` set T"
  by (auto simp: owners_def)

lemma last_owner: "T \<noteq> [] \<Longrightarrow> seg_id (last T) \<noteq> Idle \<Longrightarrow> seg_id (last T) \<in> set (owners T)"
  by (auto simp: owners_def)

lemma sjf_policy_snoc:
  assumes "sjf_policy ps T"
    and "seg_id g \<noteq> Idle \<longrightarrow>
        (\<exists>p\<in>set ps. pid p = seg_id g \<and> seg_end g = seg_start g + burst p \<and>
           arrival p \<le> seg_start g \<and>
           (\<forall>q\<in>set ps. arrival q \<le> seg_start g \<and> pid q \<notin> seg_id ` set T
                         \<longrightarrow> sjf_prefers ps p q))"
  shows "sjf_policy ps (T @ [g])"
  unfolding sjf_policy_def
proof (intro allI impI)
  fix j assume j: "j < length (T @ [g])" and ni: "seg_id ((T @ [g]) ! j) \<noteq> Idle"
  show "\<exists>p\<in>set ps. pid p = seg_id ((T @ [g]) ! j) \<and>
           seg_end ((T @ [g]) ! j) = seg_start ((T @ [g]) ! j) + burst p \<and>
           arrival p \<le> seg_start ((T @ [g]) ! j) \<and>
           (\<forall>q\<in>set ps. arrival q \<le> seg_start ((T @ [g]) ! j) \<and>
                         pid q \<notin> seg_id ` set (take j (T @ [g]))
                         \<longrightarrow> sjf_prefers ps p q)"
  proof (cases "j < length T")
    case True
    then have "(T @ [g]) ! j = T ! j" "take j (T @ [g]) = take j T"
      by (simp_all add: nth_append)
    with assms(1) True ni show ?thesis
      unfolding sjf_policy_def by simp
  next
    case False
    with j have "j = length T" by simp
    then have "(T @ [g]) ! j = g" "take j (T @ [g]) = T" by simp_all
    with assms(2) ni show ?thesis by simp
  qed
qed

lemma sjf_incomplete_exists:
  assumes valid: "valid_input ps" and sub: "C \<subseteq> pid ` set ps" and guard: "card C < length ps"
  shows "\<exists>p\<in>set ps. pid p \<notin> C"
proof (rule ccontr)
  assume "\<not> ?thesis"
  then have "pid ` set ps \<subseteq> C" by auto
  with sub have "C = pid ` set ps" by auto
  with guard valid show False by (simp add: card_pids valid_input_def)
qed

lemma sjf_body_idle:
  assumes valid: "valid_input ps" and sps: "sps = sort_key arrival ps"
    and inv: "sjf_inv ps sps s" and guard: "card (completed_processes s) < length ps"
    and none: "sjf_ready sps (completed_processes s) (sjf_current_time s) = []"
  shows "\<exists>s'. sjf_body sps s = Inr s' \<and> sjf_inv ps sps s' \<and>
              sjf_measure ps sps s' < sjf_measure ps sps s"
proof -
  let ?C = "completed_processes s" and ?t = "sjf_current_time s" and ?T = "sjf_timeline s"
  note f = sorted_input_facts [OF valid sps]
  from inv obtain ta where ta: "ta \<le> ?t"
    and R: "sjf_ready_queue s = sort_key burst (sjf_ready sps ?C ta)"
    by (auto simp: sjf_inv_def)
  from inv have cov: "covers 0 ?t ?T" and coal: "coalesced ?T"
    and own: "set (owners ?T) = ?C" and dist: "distinct (owners ?T)"
    and sub: "?C \<subseteq> pid ` set ps" and pol: "sjf_policy ps ?T"
    and afteridle: "?T \<noteq> [] \<and> seg_id (last ?T) = Idle \<longrightarrow> sjf_ready sps ?C ?t \<noteq> []"
    by (auto simp: sjf_inv_def)
  have rq: "admit_ready ?C ?t sps (sjf_ready_queue s) = []"
    using sjf_admit_empty_iff [OF f(1) f(3) ta R] none by simp
  from sjf_incomplete_exists [OF valid sub guard] f(4)
  have "filter (\<lambda>p. pid p \<notin> ?C) sps \<noteq> []" by (auto simp: filter_empty_conv)
  then obtain q qs where inc: "filter (\<lambda>p. pid p \<notin> ?C) sps = q # qs"
    by (cases "filter (\<lambda>p. pid p \<notin> ?C) sps") auto
  define nxt where "nxt = fold min (map arrival qs) (arrival q)"
  have nxtMin: "nxt = Min (arrival ` set (q # qs))"
    unfolding nxt_def by (simp add: fold_min_Min)
  then have "nxt \<in> arrival ` set (q # qs)"
    by (metis Min_in List.finite_set finite_imageI image_is_empty list.distinct(1) set_empty)
  then obtain pm where pm: "pm \<in> set (q # qs)" "arrival pm = nxt" by auto
  then have pm': "pm \<in> set sps" "pid pm \<notin> ?C"
    using inc [symmetric] by auto
  have "pm \<notin> set (sjf_ready sps ?C ?t)" using none by simp
  with pm' have lt: "?t < nxt" by (auto simp: sjf_ready_def pm(2))
  define s' where "s' = s\<lparr>sjf_timeline := ?T @ [mk_seg Idle ?t nxt],
                         sjf_ready_queue := [], sjf_current_time := nxt\<rparr>"
  have body: "sjf_body sps s = Inr s'"
    by (simp add: sjf_body_def rq inc s'_def nxt_def Let_def)
  have ready': "sjf_ready sps ?C nxt \<noteq> []"
    using pm' pm(2) by (auto simp: sjf_ready_def filter_empty_conv)
  have lastT: "?T \<noteq> [] \<longrightarrow> seg_id (last ?T) \<noteq> Idle"
    using afteridle none by auto
  have "sjf_inv ps sps s'"
    unfolding sjf_inv_def
  proof (intro conjI)
    show "covers 0 (sjf_current_time s') (sjf_timeline s')"
      using cov lt by (simp add: s'_def covers_snoc mk_seg_def)
    show "coalesced (sjf_timeline s')"
      using coal lastT by (simp add: s'_def coalesced_snoc mk_seg_def)
    show "set (owners (sjf_timeline s')) = completed_processes s'"
      using own by (simp add: s'_def owners_snoc mk_seg_def)
    show "distinct (owners (sjf_timeline s'))"
      using dist by (simp add: s'_def owners_snoc mk_seg_def)
    show "completed_processes s' \<subseteq> pid ` set ps"
      using sub by (simp add: s'_def)
    show "sjf_policy ps (sjf_timeline s')"
      unfolding s'_def by (simp, rule sjf_policy_snoc [OF pol]) (simp add: mk_seg_def)
    show "\<exists>ta\<le>sjf_current_time s'.
        sjf_ready_queue s' = sort_key burst (sjf_ready sps (completed_processes s') ta)"
      using lt none by (intro exI [of _ ?t]) (simp add: s'_def)
    show "sjf_timeline s' \<noteq> [] \<and> seg_id (last (sjf_timeline s')) = Idle \<longrightarrow>
        sjf_ready sps (completed_processes s') (sjf_current_time s') \<noteq> []"
      using ready' by (simp add: s'_def)
  qed
  moreover have "sjf_measure ps sps s' < sjf_measure ps sps s"
    using ready' none by (simp add: sjf_measure_def s'_def)
  ultimately show ?thesis using body by blast
qed

lemma sjf_body_run:
  assumes valid: "valid_input ps" and sps: "sps = sort_key arrival ps"
    and inv: "sjf_inv ps sps s" and guard: "card (completed_processes s) < length ps"
    and some: "sjf_ready sps (completed_processes s) (sjf_current_time s) \<noteq> []"
  shows "\<exists>s'. sjf_body sps s = Inr s' \<and> sjf_inv ps sps s' \<and>
              sjf_measure ps sps s' < sjf_measure ps sps s"
proof -
  let ?C = "completed_processes s" and ?t = "sjf_current_time s" and ?T = "sjf_timeline s"
  let ?F = "sjf_ready sps ?C ?t"
  note f = sorted_input_facts [OF valid sps]
  from inv obtain ta where ta: "ta \<le> ?t"
    and R: "sjf_ready_queue s = sort_key burst (sjf_ready sps ?C ta)"
    by (auto simp: sjf_inv_def)
  from inv have cov: "covers 0 ?t ?T" and coal: "coalesced ?T"
    and own: "set (owners ?T) = ?C" and dist: "distinct (owners ?T)"
    and sub: "?C \<subseteq> pid ` set ps" and pol: "sjf_policy ps ?T"
    by (auto simp: sjf_inv_def)
  have rqne: "admit_ready ?C ?t sps (sjf_ready_queue s) \<noteq> []"
    using sjf_admit_empty_iff [OF f(1) f(3) ta R] some by simp
  have srt: "sort_key burst (admit_ready ?C ?t sps (sjf_ready_queue s)) = sort_key burst ?F"
    by (rule sjf_queue_after_admit [OF f(1) f(3) ta R])
  define sh where "sh = hd (sort_key burst ?F)"
  have shF: "sh \<in> set ?F" unfolding sh_def by (rule hd_sort_key_mem [OF some])
  then have shs: "sh \<in> set ps" "pid sh \<notin> ?C" "arrival sh \<le> ?t"
    using f(4) by (auto simp: sjf_ready_def)
  with valid have shv: "0 < burst sh" "pid sh \<noteq> Idle" by (auto simp: valid_input_def)
  define s' where "s' = s\<lparr>sjf_timeline := ?T @ [mk_seg (pid sh) ?t (?t + burst sh)],
                         sjf_ready_queue := tl (sort_key burst ?F),
                         sjf_current_time := ?t + burst sh,
                         completed_processes := insert (pid sh) ?C\<rparr>"
  have body: "sjf_body sps s = Inr s'"
    using rqne by (simp add: sjf_body_def srt s'_def sh_def Let_def)
  have fin: "finite ?C" using sub by (rule finite_subset) simp
  have lastT: "?T \<noteq> [] \<longrightarrow> seg_id (last ?T) \<noteq> pid sh"
    using last_owner [of ?T] own shs(2) shv(2) by auto
  have prefers: "sjf_prefers ps sh q"
    if "q \<in> set ps" "arrival q \<le> ?t" "pid q \<notin> seg_id ` set ?T" for q
  proof -
    from that(3) own owners_subset [of ?T] have "pid q \<notin> ?C" by auto
    with that f(4) have "q \<in> set ?F" by (simp add: sjf_ready_def)
    then show ?thesis unfolding sh_def by (rule sjf_choice [OF sps])
  qed
  have "sjf_inv ps sps s'"
    unfolding sjf_inv_def
  proof (intro conjI)
    show "covers 0 (sjf_current_time s') (sjf_timeline s')"
      using cov shv(1) by (simp add: s'_def covers_snoc mk_seg_def)
    show "coalesced (sjf_timeline s')"
      using coal lastT by (simp add: s'_def coalesced_snoc mk_seg_def)
    show "set (owners (sjf_timeline s')) = completed_processes s'"
      using own shv(2) by (simp add: s'_def owners_snoc mk_seg_def)
    show "distinct (owners (sjf_timeline s'))"
      using dist own shs(2) shv(2) by (simp add: s'_def owners_snoc mk_seg_def)
    show "completed_processes s' \<subseteq> pid ` set ps"
      using sub shs(1) by (simp add: s'_def)
    show "sjf_policy ps (sjf_timeline s')"
      unfolding s'_def
      by (simp, rule sjf_policy_snoc [OF pol]) (use shs prefers in \<open>auto simp: mk_seg_def\<close>)
    show "\<exists>ta\<le>sjf_current_time s'.
        sjf_ready_queue s' = sort_key burst (sjf_ready sps (completed_processes s') ta)"
      using shv(1) sjf_ready_tl [OF f(2) some]
      by (intro exI [of _ ?t]) (simp add: s'_def sh_def)
    show "sjf_timeline s' \<noteq> [] \<and> seg_id (last (sjf_timeline s')) = Idle \<longrightarrow>
        sjf_ready sps (completed_processes s') (sjf_current_time s') \<noteq> []"
      using shv(2) by (simp add: s'_def mk_seg_def)
  qed
  moreover have "sjf_measure ps sps s' < sjf_measure ps sps s"
    using guard fin shs(2) by (auto simp: sjf_measure_def s'_def)
  ultimately show ?thesis using body by blast
qed

section \<open>SJF: termination and the final timeline\<close>

lemma sjf_init_inv:
  assumes valid: "valid_input ps" and sps: "set sps = set ps"
  shows "sjf_inv ps sps sjf_init"
proof -
  have e: "sjf_ready sps {} (- 1) = []"
    using valid sps by (auto simp: sjf_ready_def valid_input_def filter_empty_conv)
  have "\<exists>ta\<le>0. [] = sort_key burst (sjf_ready sps {} ta)"
    by (rule exI [of _ "- 1"]) (simp add: e)
  then show ?thesis
    by (simp add: sjf_inv_def sjf_init_def owners_def sjf_policy_def)
qed

lemma sjf_final:
  assumes valid: "valid_input ps" and inv: "sjf_inv ps sps s"
    and guard: "\<not> card (completed_processes s) < length ps"
  shows "gapless_from 0 (sjf_timeline s) \<and> coalesced (sjf_timeline s) \<and>
         sjf_policy ps (sjf_timeline s) \<and> mset (owners (sjf_timeline s)) = mset (map pid ps)"
proof -
  from inv have cov: "covers 0 (sjf_current_time s) (sjf_timeline s)"
    and coal: "coalesced (sjf_timeline s)"
    and own: "set (owners (sjf_timeline s)) = completed_processes s"
    and dist: "distinct (owners (sjf_timeline s))"
    and sub: "completed_processes s \<subseteq> pid ` set ps" and pol: "sjf_policy ps (sjf_timeline s)"
    by (auto simp: sjf_inv_def)
  from valid have d: "distinct (map pid ps)" by (simp add: valid_input_def)
  have "card (pid ` set ps) \<le> card (completed_processes s)"
    using guard d by (simp add: card_pids)
  with sub have "completed_processes s = pid ` set ps"
    by (intro card_seteq) auto
  with own have "set (owners (sjf_timeline s)) = set (map pid ps)" by simp
  with dist d have "mset (owners (sjf_timeline s)) = mset (map pid ps)"
    by (subst set_eq_iff_mset_eq_distinct [symmetric])
  with covers_gapless [OF cov] coal pol show ?thesis by simp
qed

lemma sjf_loop_total:
  assumes valid: "valid_input ps" and sps: "sps = sort_key arrival ps"
  shows "sjf_inv ps sps s \<Longrightarrow>
         \<exists>tml. sjf_loop sps (length ps) s = Some (Inr tml) \<and>
               gapless_from 0 tml \<and> coalesced tml \<and> sjf_policy ps tml \<and>
               mset (owners tml) = mset (map pid ps)"
proof (induction "sjf_measure ps sps s" arbitrary: s rule: less_induct)
  case less
  show ?case
  proof (cases "card (completed_processes s) < length ps")
    case True
    have "\<exists>s'. sjf_body sps s = Inr s' \<and> sjf_inv ps sps s' \<and>
              sjf_measure ps sps s' < sjf_measure ps sps s"
      using sjf_body_idle [OF valid sps less.prems True] sjf_body_run [OF valid sps less.prems True]
      by blast
    then obtain s' where body: "sjf_body sps s = Inr s'" and inv': "sjf_inv ps sps s'"
      and dec: "sjf_measure ps sps s' < sjf_measure ps sps s" by blast
    from less.hyps [OF dec inv'] obtain tml where
      "sjf_loop sps (length ps) s' = Some (Inr tml)"
      "gapless_from 0 tml" "coalesced tml" "sjf_policy ps tml"
      "mset (owners tml) = mset (map pid ps)" by blast
    moreover have "sjf_loop sps (length ps) s = sjf_loop sps (length ps) s'"
      using True body by (subst sjf_loop.simps) simp
    ultimately show ?thesis by auto
  next
    case False
    then have "sjf_loop sps (length ps) s = Some (Inr (sjf_timeline s))"
      by (subst sjf_loop.simps) simp
    with sjf_final [OF valid less.prems False] show ?thesis by simp
  qed
qed

lemma sjf_total_correctness:
  assumes valid: "valid_input ps"
  shows "\<exists>tml. sjf_non_preemptive_schedule ps = Some (Inr tml) \<and>
               gapless_from 0 tml \<and> coalesced tml \<and> sjf_policy ps tml \<and>
               mset (owners tml) = mset (map pid ps)"
  unfolding sjf_non_preemptive_schedule_def
  by (rule sjf_loop_total [OF valid refl sjf_init_inv [OF valid]]) simp

section \<open>FCFS: the timeline\<close>

lemma fcfs_loop_correct:
  assumes "distinct (map pid ps)" "\<forall>p\<in>set ps. 0 < burst p \<and> pid p \<noteq> Idle"
    and "covers 0 t T" "coalesced T"
    and "T \<noteq> [] \<longrightarrow> seg_id (last T) \<noteq> Idle \<and> seg_id (last T) \<notin> pid ` set ps"
  shows "\<exists>t'. covers 0 t' (fcfs_loop ps T t) \<and> coalesced (fcfs_loop ps T t) \<and>
              owners (fcfs_loop ps T t) = owners T @ map pid ps"
  using assms
proof (induction ps arbitrary: T t)
  case Nil
  then show ?case by auto
next
  case (Cons p ps)
  from Cons.prems have d: "distinct (map pid ps)" and v: "\<forall>p\<in>set ps. 0 < burst p \<and> pid p \<noteq> Idle"
    and pv: "0 < burst p" "pid p \<noteq> Idle" "pid p \<notin> pid ` set ps"
    and lastT: "T \<noteq> [] \<longrightarrow> seg_id (last T) \<noteq> Idle \<and> seg_id (last T) \<noteq> pid p"
    by auto
  show ?case
  proof (cases "t < arrival p")
    case True
    let ?T' = "T @ [mk_seg Idle t (arrival p)] @ [mk_seg (pid p) (arrival p) (arrival p + burst p)]"
    have c: "covers 0 (arrival p + burst p) ?T'"
      using Cons.prems(3) True pv(1) by (simp add: covers_append mk_seg_def)
    have k: "coalesced ?T'"
      using Cons.prems(4) lastT pv(2)
      by (simp add: coalesced_snoc2 coalesced_snoc mk_seg_def)
    have l: "?T' \<noteq> [] \<longrightarrow> seg_id (last ?T') \<noteq> Idle \<and> seg_id (last ?T') \<notin> pid ` set ps"
      using pv by (simp add: mk_seg_def)
    from Cons.IH [OF d v c k l] True pv(2) show ?thesis
      by (simp add: owners_def mk_seg_def)
  next
    case False
    let ?T' = "T @ [mk_seg (pid p) t (t + burst p)]"
    have c: "covers 0 (t + burst p) ?T'"
      using Cons.prems(3) pv(1) by (simp add: covers_snoc mk_seg_def)
    have k: "coalesced ?T'"
      using Cons.prems(4) lastT by (simp add: coalesced_snoc mk_seg_def)
    have l: "?T' \<noteq> [] \<longrightarrow> seg_id (last ?T') \<noteq> Idle \<and> seg_id (last ?T') \<notin> pid ` set ps"
      using pv by (simp add: mk_seg_def)
    from Cons.IH [OF d v c k l] False pv(2) show ?thesis
      by (simp add: owners_def mk_seg_def)
  qed
qed

lemma fcfs_segment_lengths:
  "\<forall>g\<in>set T. seg_id g \<noteq> Idle \<longrightarrow> (\<exists>p\<in>set (qs @ ps). pid p = seg_id g \<and> seg_end g = seg_start g + burst p) \<Longrightarrow>
   \<forall>p\<in>set ps. pid p \<noteq> Idle \<Longrightarrow>
   \<forall>g\<in>set (fcfs_loop ps T t). seg_id g \<noteq> Idle \<longrightarrow>
      (\<exists>p\<in>set (qs @ ps). pid p = seg_id g \<and> seg_end g = seg_start g + burst p)"
proof (induction ps arbitrary: T t qs)
  case Nil
  then show ?case by simp
next
  case (Cons p ps)
  have a: "\<forall>p\<in>set ps. pid p \<noteq> Idle" using Cons.prems(2) by simp
  show ?case
  proof (cases "t < arrival p")
    case True
    have "\<forall>g\<in>set (T @ [mk_seg Idle t (arrival p)] @ [mk_seg (pid p) (arrival p) (arrival p + burst p)]).
        seg_id g \<noteq> Idle \<longrightarrow> (\<exists>x\<in>set ((qs @ [p]) @ ps). pid x = seg_id g \<and> seg_end g = seg_start g + burst x)"
      using Cons.prems(1) by (auto simp: mk_seg_def)
    from Cons.IH [OF this a] True show ?thesis by simp
  next
    case False
    have "\<forall>g\<in>set (T @ [mk_seg (pid p) t (t + burst p)]).
        seg_id g \<noteq> Idle \<longrightarrow> (\<exists>x\<in>set ((qs @ [p]) @ ps). pid x = seg_id g \<and> seg_end g = seg_start g + burst x)"
      using Cons.prems(1) by (auto simp: mk_seg_def)
    from Cons.IH [OF this a] False show ?thesis by simp
  qed
qed

lemma fcfs_total_correctness:
  assumes valid: "valid_input ps"
  shows "gapless_from 0 (fcfs_schedule ps) \<and> coalesced (fcfs_schedule ps) \<and>
         owners (fcfs_schedule ps) = map pid (sort_key arrival ps) \<and>
         (\<forall>g\<in>set (fcfs_schedule ps). seg_id g \<noteq> Idle \<longrightarrow>
            (\<exists>p\<in>set ps. pid p = seg_id g \<and> seg_end g = seg_start g + burst p))"
proof -
  let ?sps = "sort_key arrival ps"
  note f = sorted_input_facts [OF valid refl]
  have v: "\<forall>p\<in>set ?sps. 0 < burst p \<and> pid p \<noteq> Idle"
    using valid by (simp add: valid_input_def)
  from fcfs_loop_correct [OF f(2) v, of 0 "[]"]
  obtain t' where "covers 0 t' (fcfs_loop ?sps [] 0)" "coalesced (fcfs_loop ?sps [] 0)"
    "owners (fcfs_loop ?sps [] 0) = map pid ?sps"
    by (auto simp: owners_def)
  moreover have "\<forall>g\<in>set (fcfs_loop ?sps [] 0). seg_id g \<noteq> Idle \<longrightarrow>
      (\<exists>p\<in>set ([] @ ?sps). pid p = seg_id g \<and> seg_end g = seg_start g + burst p)"
    using v by (intro fcfs_segment_lengths) auto
  ultimately show ?thesis
    using covers_gapless by (auto simp: fcfs_schedule_def)
qed

section \<open>Round-Robin: admission of arrivals\<close>

lemma admit_arrived_eq:
  "admit_arrived sps t i rq =
     (i + length (takeWhile (\<lambda>p. arrival p \<le> t) (drop i sps)),
      rq @ takeWhile (\<lambda>p. arrival p \<le> t) (drop i sps))"
proof (induction sps t i rq rule: admit_arrived.induct)
  case (1 sps t i rq)
  show ?case
  proof (cases "i < length sps \<and> arrival (sps ! i) \<le> t")
    case True
    then have d: "drop i sps = sps ! i # drop (Suc i) sps"
      by (simp add: Cons_nth_drop_Suc)
    from True 1 show ?thesis
      by (subst admit_arrived.simps) (simp add: d)
  next
    case False
    show ?thesis
    proof (cases "i < length sps")
      case True
      then have d: "drop i sps = sps ! i # drop (Suc i) sps"
        by (simp add: Cons_nth_drop_Suc)
      from False True show ?thesis
        by (subst admit_arrived.simps) (simp add: d)
    next
      case False
      then show ?thesis
        by (subst admit_arrived.simps) simp
    qed
  qed
qed

lemma takeWhile_arrival_filter:
  "sorted (map arrival xs) \<Longrightarrow>
   takeWhile (\<lambda>p. arrival p \<le> t) xs = filter (\<lambda>p. arrival p \<le> t) xs"
proof (induction xs)
  case Nil
  then show ?case by simp
next
  case (Cons a xs)
  show ?case
  proof (cases "arrival a \<le> t")
    case True
    with Cons show ?thesis by simp
  next
    case False
    with Cons.prems have "\<forall>x\<in>set xs. \<not> arrival x \<le> t" by fastforce
    then have "filter (\<lambda>p. arrival p \<le> t) xs = []" by (simp add: filter_empty_conv)
    with False show ?thesis by simp
  qed
qed

lemma not_admitted_later:
  assumes srt: "sorted (map arrival sps)"
    and j: "i + length (takeWhile (\<lambda>p. arrival p \<le> t) (drop i sps)) \<le> j" "j < length sps"
  shows "t < arrival (sps ! j)"
proof -
  let ?P = "\<lambda>p. arrival p \<le> t"
  let ?k = "length (takeWhile ?P (drop i sps))"
  from j have k: "?k < length (drop i sps)" by simp
  then have "\<not> ?P (drop i sps ! ?k)" by (rule nth_length_takeWhile)
  moreover have "drop i sps ! ?k = sps ! (i + ?k)" using j by simp
  ultimately have "t < arrival (sps ! (i + ?k))" by simp
  moreover have "arrival (sps ! (i + ?k)) \<le> arrival (sps ! j)"
    using sorted_nth_mono [OF srt, of "i + ?k" j] j by simp
  ultimately show ?thesis by simp
qed

lemma rr_admitted_after_admit:
  assumes "sorted (map arrival sps)"
    and "admit_arrived sps t i rq = (i1, rq1)"
    and "rr_i s' = i1" "rr_current_time s' = t"
  shows "rr_admitted sps s'"
  unfolding rr_admitted_def
proof (intro allI impI)
  fix j assume j: "j < length sps" "arrival (sps ! j) \<le> rr_current_time s'"
  from assms(2) have i1: "i1 = i + length (takeWhile (\<lambda>p. arrival p \<le> t) (drop i sps))"
    by (simp add: admit_arrived_eq)
  show "j < rr_i s'"
  proof (rule ccontr)
    assume "\<not> j < rr_i s'"
    with assms(3) i1 have "i + length (takeWhile (\<lambda>p. arrival p \<le> t) (drop i sps)) \<le> j" by simp
    from not_admitted_later [OF assms(1) this j(1)] j(2) assms(4) show False by simp
  qed
qed

lemma rr_init_admitted: "rr_admitted (sort_key arrival ps) (rr_init ps)"
proof -
  obtain i0 rq0 where a: "admit_arrived (sort_key arrival ps) 0 0 [] = (i0, rq0)"
    by (cases "admit_arrived (sort_key arrival ps) 0 0 []")
  show ?thesis
    by (rule rr_admitted_after_admit [OF _ a]) (simp_all add: rr_init_def a)
qed

lemma rr_step_admitted:
  assumes "sorted (map arrival sps)"
  shows "rr_admitted sps (rr_step sps q s)"
proof (cases "rr_ready_queue s = []")
  case True
  obtain i1 rq1 where a: "admit_arrived sps (arrival (sps ! rr_i s)) (rr_i s) (rr_ready_queue s) = (i1, rq1)"
    by (cases "admit_arrived sps (arrival (sps ! rr_i s)) (rr_i s) (rr_ready_queue s)")
  show ?thesis
    by (rule rr_admitted_after_admit [OF assms a])
       (simp_all add: rr_step_def True rr_idle_step_def Let_def a [unfolded True])
next
  case False
  let ?e = "min q (the (rr_remaining s (pid (hd (rr_ready_queue s)))))"
  obtain i1 rq1 where a: "admit_arrived sps (rr_current_time s + ?e) (rr_i s) (tl (rr_ready_queue s)) = (i1, rq1)"
    by (cases "admit_arrived sps (rr_current_time s + ?e) (rr_i s) (tl (rr_ready_queue s))")
  show ?thesis
    by (rule rr_admitted_after_admit [OF assms a])
       (simp_all add: rr_step_def False rr_dispatch_step_def Let_def a)
qed

lemma rr_dispatch_effect:
  assumes srt: "sorted (map arrival sps)" and rq: "rr_ready_queue s = pr # rest"
  shows "let e = min q (the (rr_remaining s (pid pr)));
             arrived = filter (\<lambda>p. arrival p \<le> rr_current_time s + e) (drop (rr_i s) sps);
             s' = rr_step sps q s
         in rr_timeline s' = rr_timeline s @
              [mk_seg (pid pr) (rr_current_time s) (rr_current_time s + e)] \<and>
            rr_current_time s' = rr_current_time s + e \<and>
            rr_remaining s' = (rr_remaining s)(pid pr \<mapsto> the (rr_remaining s (pid pr)) - e) \<and>
            rr_ready_queue s' =
              rest @ arrived @ (if 0 < the (rr_remaining s (pid pr)) - e then [pr] else []) \<and>
            rr_i s' = rr_i s + length arrived"
proof -
  have "sorted (map arrival (drop (rr_i s) sps))"
    using srt by (simp add: sorted_wrt_drop drop_map [symmetric])
  then have tw: "takeWhile (\<lambda>p. arrival p \<le> t) (drop (rr_i s) sps)
             = filter (\<lambda>p. arrival p \<le> t) (drop (rr_i s) sps)" for t
    by (rule takeWhile_arrival_filter)
  show ?thesis
    by (simp add: rr_step_def rq rr_dispatch_step_def Let_def admit_arrived_eq tw)
qed

section \<open>Round-Robin: termination and the final timeline\<close>

lemma seg_total_snoc:
  "seg_total k (T @ [g]) =
     seg_total k T + (if seg_id g = k \<and> k \<noteq> Idle then seg_end g - seg_start g else 0)"
  by (auto simp: seg_total_def)

lemma seg_total_Nil [simp]: "seg_total k [] = 0"
  by (simp add: seg_total_def)

lemma take_admitted:
  "take (i + length (takeWhile P (drop i sps))) sps = take i sps @ takeWhile P (drop i sps)"
proof -
  have "take (i + length (takeWhile P (drop i sps))) sps
      = take i sps @ take (length (takeWhile P (drop i sps))) (drop i sps)"
    by (simp add: take_add)
  also have "take (length (takeWhile P (drop i sps))) (drop i sps) = takeWhile P (drop i sps)"
    by (metis append_eq_conv_conj takeWhile_dropWhile_id)
  finally show ?thesis .
qed

lemma drop_admitted:
  "drop (i + length (takeWhile P (drop i sps))) sps = dropWhile P (drop i sps)"
proof -
  have "drop (i + length (takeWhile P (drop i sps))) sps
      = drop (length (takeWhile P (drop i sps))) (drop i sps)"
    by (simp add: add.commute)
  also have "\<dots> = dropWhile P (drop i sps)"
    by (metis append_eq_conv_conj takeWhile_dropWhile_id)
  finally show ?thesis .
qed

lemma admitted_bound: "i \<le> length sps \<Longrightarrow> i + length (takeWhile P (drop i sps)) \<le> length sps"
  using length_takeWhile_le [of P "drop i sps"] by simp

lemma distinct_take_drop_disjoint:
  "distinct sps \<Longrightarrow> set (take i sps) \<inter> set (drop i sps) = {}"
  by (metis append_take_drop_id distinct_append)

lemma rr_dispatch_inv:
  assumes valid: "valid_input ps" and sps: "sps = sort_key arrival ps" and q: "0 < q"
    and inv: "rr_inv ps sps s" and rq: "rr_ready_queue s = pr # rest"
  shows "rr_inv ps sps (rr_step sps q s) \<and>
         rr_measure ps sps (rr_step sps q s) < rr_measure ps sps s"
proof -
  note f = sorted_input_facts [OF valid sps]
  let ?T = "rr_timeline s" and ?t = "rr_current_time s" and ?i = "rr_i s"
  let ?r = "the (rr_remaining s (pid pr))"
  let ?e = "min q ?r"
  let ?P = "\<lambda>p. arrival p \<le> ?t + ?e"
  let ?arr = "takeWhile ?P (drop ?i sps)"
  let ?rst = "dropWhile ?P (drop ?i sps)"
  let ?s' = "rr_step sps q s"
  from inv have cov: "covers 0 ?t ?T" and ile: "?i \<le> length sps"
    and dq: "distinct (pr # rest)" and sub: "set (pr # rest) \<subseteq> set (take ?i sps)"
    and rem: "\<forall>p\<in>set ps. rr_remaining s (pid p) = Some (burst p - seg_total (pid p) ?T)"
    and le: "\<forall>p\<in>set ps. seg_total (pid p) ?T \<le> burst p"
    and mem: "\<forall>p\<in>set (take ?i sps). p \<in> set (pr # rest) \<longleftrightarrow> seg_total (pid p) ?T < burst p"
    and fresh: "\<forall>p\<in>set (drop ?i sps). seg_total (pid p) ?T = 0"
    by (simp_all add: rr_inv_def rq)
  have srtd: "sorted (map arrival (drop ?i sps))"
    using f(3) by (simp add: sorted_wrt_drop drop_map [symmetric])
  have arr_filter: "filter ?P (drop ?i sps) = ?arr"
    by (rule takeWhile_arrival_filter [OF srtd, symmetric])
  from rr_dispatch_effect [OF f(3) rq, of q]
  have T': "rr_timeline ?s' = ?T @ [mk_seg (pid pr) ?t (?t + ?e)]"
    and t': "rr_current_time ?s' = ?t + ?e"
    and rem': "rr_remaining ?s' = (rr_remaining s)(pid pr \<mapsto> ?r - ?e)"
    and rq': "rr_ready_queue ?s' = rest @ ?arr @ (if 0 < ?r - ?e then [pr] else [])"
    and i': "rr_i ?s' = ?i + length ?arr"
    by (simp_all add: Let_def arr_filter)
  have take': "take (rr_i ?s') sps = take ?i sps @ ?arr"
    unfolding i' by (rule take_admitted)
  have drop': "drop (rr_i ?s') sps = ?rst"
    unfolding i' by (rule drop_admitted)
  have "distinct (take ?i sps @ ?arr @ ?rst)"
    using f(1) by simp
  then have dis: "distinct (take ?i sps)" "distinct ?arr" "distinct ?rst"
    "set (take ?i sps) \<inter> set ?arr = {}" "set (take ?i sps) \<inter> set ?rst = {}"
    "set ?arr \<inter> set ?rst = {}"
    by (auto simp only: distinct_append Un_iff set_append Int_Un_distrib)
  have allin: "set (take ?i sps) \<subseteq> set ps" "set ?arr \<subseteq> set ps" "set ?rst \<subseteq> set ps"
    using f(4) set_take_subset [of ?i sps] set_takeWhileD [of _ ?P "drop ?i sps"]
      set_dropWhileD [of _ ?P "drop ?i sps"] set_drop_subset [of ?i sps]
    by blast+
  from sub have prA: "pr \<in> set (take ?i sps)" by simp
  with allin have prps: "pr \<in> set ps" by auto
  from mem prA have lt: "seg_total (pid pr) ?T < burst pr" by auto
  from rem prps have r: "?r = burst pr - seg_total (pid pr) ?T" by simp
  with lt have rpos: "0 < ?r" by simp
  with q have epos: "0 < ?e" and ele: "?e \<le> ?r" by simp_all
  from valid prps have nidle: "pid pr \<noteq> Idle" by (auto simp: valid_input_def)
  from valid have dmap: "distinct (map pid ps)" by (simp add: valid_input_def)
  have uniq: "p = pr" if "p \<in> set ps" "pid p = pid pr" for p
    using dmap that prps by (metis distinct_map inj_onD)
  have seg': "seg_total (pid p) (rr_timeline ?s')
        = seg_total (pid p) ?T + (if p = pr then ?e else 0)" if "p \<in> set ps" for p
    using uniq [OF that] nidle by (auto simp: T' seg_total_snoc mk_seg_def)
  have segpr: "seg_total (pid pr) (rr_timeline ?s') = seg_total (pid pr) ?T + ?e"
    using seg' [OF prps] by simp
  have "rr_inv ps sps ?s'"
    unfolding rr_inv_def
  proof (intro conjI)
    show "covers 0 (rr_current_time ?s') (rr_timeline ?s')"
      using cov epos by (simp add: T' t' covers_snoc mk_seg_def)
    show "rr_i ?s' \<le> length sps"
      unfolding i' by (rule admitted_bound [OF ile])
    show "rr_admitted sps ?s'"
      by (rule rr_step_admitted [OF f(3)])
    show "distinct (rr_ready_queue ?s')"
      using dq dis(2,4) sub by (auto simp: rq')
    show "set (rr_ready_queue ?s') \<subseteq> set (take (rr_i ?s') sps)"
      using sub by (auto simp: rq' take')
    show "\<forall>p\<in>set ps. rr_remaining ?s' (pid p)
            = Some (burst p - seg_total (pid p) (rr_timeline ?s'))"
    proof
      fix p assume p: "p \<in> set ps"
      show "rr_remaining ?s' (pid p) = Some (burst p - seg_total (pid p) (rr_timeline ?s'))"
      proof (cases "p = pr")
        case True
        then show ?thesis by (simp add: rem' segpr r)
      next
        case False
        with uniq [OF p] have "pid p \<noteq> pid pr" by auto
        with False rem p show ?thesis by (simp add: rem' seg' [OF p])
      qed
    qed
    show "\<forall>p\<in>set ps. seg_total (pid p) (rr_timeline ?s') \<le> burst p"
      using le ele r by (auto simp: seg')
    show "\<forall>p\<in>set (take (rr_i ?s') sps).
        p \<in> set (rr_ready_queue ?s') \<longleftrightarrow> seg_total (pid p) (rr_timeline ?s') < burst p"
    proof
      fix p assume "p \<in> set (take (rr_i ?s') sps)"
      then consider "p = pr" | "p \<in> set (take ?i sps)" "p \<noteq> pr" | "p \<in> set ?arr"
        by (auto simp: take')
      then show "p \<in> set (rr_ready_queue ?s') \<longleftrightarrow> seg_total (pid p) (rr_timeline ?s') < burst p"
      proof cases
        case 1
        have "pr \<notin> set rest" using dq by simp
        moreover have "pr \<notin> set ?arr" using prA dis(4) by auto
        moreover have "0 < ?r - ?e \<longleftrightarrow> seg_total (pid pr) ?T + ?e < burst pr"
          using r by linarith
        ultimately show ?thesis
          using 1 by (simp add: rq' segpr)
      next
        case 2
        then have pps: "p \<in> set ps" using allin by auto
        have "p \<notin> set ?arr" using 2(1) dis(4) by auto
        moreover from mem 2 have "p \<in> set rest \<longleftrightarrow> seg_total (pid p) ?T < burst p" by auto
        ultimately show ?thesis using 2 pps by (simp add: rq' seg')
      next
        case 3
        then have pps: "p \<in> set ps" using allin by auto
        from 3 have pD: "p \<in> set (drop ?i sps)" by (rule set_takeWhileD [THEN conjunct1])
        with fresh have z: "seg_total (pid p) ?T = 0" by simp
        have "p \<noteq> pr" using 3 prA dis(4) by auto
        moreover from valid pps have "0 < burst p" by (simp add: valid_input_def)
        ultimately show ?thesis using 3 z pps by (simp add: rq' seg')
      qed
    qed
    show "\<forall>p\<in>set (drop (rr_i ?s') sps). seg_total (pid p) (rr_timeline ?s') = 0"
    proof
      fix p assume p: "p \<in> set (drop (rr_i ?s') sps)"
      then have pr': "p \<in> set ?rst" by (simp add: drop')
      then have pps: "p \<in> set ps" using allin by auto
      from pr' have "p \<in> set (drop ?i sps)" by (rule set_dropWhileD)
      with fresh have "seg_total (pid p) ?T = 0" by simp
      moreover have "p \<noteq> pr" using pr' prA dis(5) by auto
      ultimately show "seg_total (pid p) (rr_timeline ?s') = 0" by (simp add: seg' [OF pps])
    qed
  qed
  moreover have "rr_measure ps sps ?s' < rr_measure ps sps s"
  proof -
    let ?f = "\<lambda>p. the (rr_remaining s (pid p))"
    have nonneg: "\<forall>p\<in>set ps. 0 \<le> ?f p" using rem le by simp
    have "?f pr \<le> sum_list (map ?f ps)"
      by (rule member_le_sum_list_int [OF nonneg prps])
    with rpos have big: "?e \<le> sum_list (map ?f ps)" by simp
    have "sum_list (map (\<lambda>p. the (((rr_remaining s)(pid pr \<mapsto> ?r - ?e)) (pid p))) ps)
        = sum_list (map ?f ps) - ?e"
      using sum_list_map_upd [OF dmap prps, of "rr_remaining s" "?r - ?e"] by simp
    moreover have "nat (sum_list (map ?f ps) - ?e) < nat (sum_list (map ?f ps))"
      using big epos by linarith
    moreover have "length sps - (?i + length ?arr) \<le> length sps - ?i"
      by simp
    ultimately show ?thesis
      unfolding rr_measure_def rem' i' by (simp only: add_less_le_mono)
  qed
  ultimately show ?thesis by simp
qed

lemma rr_idle_inv:
  assumes valid: "valid_input ps" and sps: "sps = sort_key arrival ps"
    and inv: "rr_inv ps sps s" and rq: "rr_ready_queue s = []" and i: "rr_i s < length sps"
  shows "rr_inv ps sps (rr_step sps q s) \<and>
         rr_measure ps sps (rr_step sps q s) < rr_measure ps sps s"
proof -
  note f = sorted_input_facts [OF valid sps]
  let ?T = "rr_timeline s" and ?t = "rr_current_time s" and ?i = "rr_i s"
  let ?nxt = "arrival (sps ! ?i)"
  let ?P = "\<lambda>p. arrival p \<le> ?nxt"
  let ?arr = "takeWhile ?P (drop ?i sps)"
  let ?rst = "dropWhile ?P (drop ?i sps)"
  let ?s' = "rr_step sps q s"
  from inv have cov: "covers 0 ?t ?T" and adm: "rr_admitted sps s"
    and rem: "\<forall>p\<in>set ps. rr_remaining s (pid p) = Some (burst p - seg_total (pid p) ?T)"
    and le: "\<forall>p\<in>set ps. seg_total (pid p) ?T \<le> burst p"
    and mem: "\<forall>p\<in>set (take ?i sps). \<not> seg_total (pid p) ?T < burst p"
    and fresh: "\<forall>p\<in>set (drop ?i sps). seg_total (pid p) ?T = 0"
    by (simp_all add: rr_inv_def rq)
  have T': "rr_timeline ?s' = ?T @ [mk_seg Idle ?t ?nxt]"
    and t': "rr_current_time ?s' = ?nxt"
    and rem': "rr_remaining ?s' = rr_remaining s"
    and rq': "rr_ready_queue ?s' = ?arr"
    and i': "rr_i ?s' = ?i + length ?arr"
    by (simp_all add: rr_step_def rq rr_idle_step_def Let_def admit_arrived_eq)
  have take': "take (rr_i ?s') sps = take ?i sps @ ?arr"
    unfolding i' by (rule take_admitted)
  have drop': "drop (rr_i ?s') sps = ?rst"
    unfolding i' by (rule drop_admitted)
  have "distinct (take ?i sps @ ?arr @ ?rst)"
    using f(1) by simp
  then have dis: "distinct ?arr" "set (take ?i sps) \<inter> set ?arr = {}"
    by (auto simp only: distinct_append Un_iff set_append Int_Un_distrib)
  have allin: "set ?arr \<subseteq> set ps" "set ?rst \<subseteq> set ps"
    using f(4) set_takeWhileD [of _ ?P "drop ?i sps"]
      set_dropWhileD [of _ ?P "drop ?i sps"] set_drop_subset [of ?i sps]
    by blast+
  have d: "drop ?i sps = sps ! ?i # drop (Suc ?i) sps"
    using i by (simp add: Cons_nth_drop_Suc)
  then have arrne: "0 < length ?arr" by simp
  have lt: "?t < ?nxt"
    using adm i unfolding rr_admitted_def by (meson less_irrefl not_le)
  have seg': "seg_total k (rr_timeline ?s') = seg_total k ?T" for k
    by (auto simp: T' seg_total_snoc mk_seg_def)
  have "rr_inv ps sps ?s'"
    unfolding rr_inv_def
  proof (intro conjI)
    show "covers 0 (rr_current_time ?s') (rr_timeline ?s')"
      using cov lt by (simp add: T' t' covers_snoc mk_seg_def)
    show "rr_i ?s' \<le> length sps"
      unfolding i' using i by (intro admitted_bound) simp
    show "rr_admitted sps ?s'"
      by (rule rr_step_admitted [OF f(3)])
    show "distinct (rr_ready_queue ?s')"
      using dis(1) by (simp add: rq')
    show "set (rr_ready_queue ?s') \<subseteq> set (take (rr_i ?s') sps)"
      by (auto simp: rq' take')
    show "\<forall>p\<in>set ps. rr_remaining ?s' (pid p)
            = Some (burst p - seg_total (pid p) (rr_timeline ?s'))"
      using rem by (simp add: rem' seg')
    show "\<forall>p\<in>set ps. seg_total (pid p) (rr_timeline ?s') \<le> burst p"
      using le by (simp add: seg')
    show "\<forall>p\<in>set (take (rr_i ?s') sps).
        p \<in> set (rr_ready_queue ?s') \<longleftrightarrow> seg_total (pid p) (rr_timeline ?s') < burst p"
    proof
      fix p assume "p \<in> set (take (rr_i ?s') sps)"
      then consider "p \<in> set (take ?i sps)" | "p \<in> set ?arr"
        by (auto simp: take')
      then show "p \<in> set (rr_ready_queue ?s') \<longleftrightarrow> seg_total (pid p) (rr_timeline ?s') < burst p"
      proof cases
        case 1
        then have "p \<notin> set ?arr" using dis(2) by auto
        with 1 mem show ?thesis by (simp add: rq' seg')
      next
        case 2
        then have pps: "p \<in> set ps" using allin by auto
        from 2 have "p \<in> set (drop ?i sps)" by (rule set_takeWhileD [THEN conjunct1])
        with fresh have "seg_total (pid p) ?T = 0" by simp
        moreover from valid pps have "0 < burst p" by (simp add: valid_input_def)
        ultimately show ?thesis using 2 by (simp add: rq' seg')
      qed
    qed
    show "\<forall>p\<in>set (drop (rr_i ?s') sps). seg_total (pid p) (rr_timeline ?s') = 0"
    proof
      fix p assume "p \<in> set (drop (rr_i ?s') sps)"
      then have "p \<in> set ?rst" by (simp add: drop')
      then have "p \<in> set (drop ?i sps)" by (rule set_dropWhileD)
      with fresh show "seg_total (pid p) (rr_timeline ?s') = 0" by (simp add: seg')
    qed
  qed
  moreover have "rr_measure ps sps ?s' < rr_measure ps sps s"
  proof -
    have "length sps - (?i + length ?arr) < length sps - ?i"
      using i arrne by linarith
    then show ?thesis
      unfolding rr_measure_def rem' i' by (simp only: add_less_cancel_left)
  qed
  ultimately show ?thesis by simp
qed

lemma rr_init_inv:
  assumes valid: "valid_input ps" and sps: "sps = sort_key arrival ps"
  shows "rr_inv ps sps (rr_init ps)"
proof -
  note f = sorted_input_facts [OF valid sps]
  let ?P = "\<lambda>p. arrival p \<le> 0"
  let ?arr = "takeWhile ?P sps"
  have init: "rr_init ps = \<lparr>rr_timeline = [], rr_current_time = 0,
      rr_remaining = init_remaining ps, rr_ready_queue = ?arr, rr_i = length ?arr\<rparr>"
    by (simp add: rr_init_def admit_arrived_eq sps)
  from valid have dmap: "distinct (map pid ps)" and pos: "\<forall>p\<in>set ps. 0 < burst p"
    by (simp_all add: valid_input_def)
  have take': "take (length ?arr) sps = ?arr"
    using take_admitted [of 0 ?P sps] by simp
  have "distinct (?arr @ dropWhile ?P sps)" using f(1) by simp
  then have dis: "distinct ?arr" by simp
  have allin: "set ?arr \<subseteq> set ps" using f(4) set_takeWhileD [of _ ?P sps] by blast
  show ?thesis
    unfolding rr_inv_def
  proof (intro conjI)
    show "rr_admitted sps (rr_init ps)"
      unfolding sps by (rule rr_init_admitted)
    show "\<forall>p\<in>set ps. rr_remaining (rr_init ps) (pid p)
            = Some (burst p - seg_total (pid p) (rr_timeline (rr_init ps)))"
      using init_remaining_lookup [OF dmap] by (simp add: init)
    show "\<forall>p\<in>set (take (rr_i (rr_init ps)) sps).
        p \<in> set (rr_ready_queue (rr_init ps))
          \<longleftrightarrow> seg_total (pid p) (rr_timeline (rr_init ps)) < burst p"
      using pos allin by (auto simp: init take')
  qed (use pos dis in \<open>simp_all add: init take' length_takeWhile_le less_imp_le\<close>)
qed

lemma rr_final:
  assumes valid: "valid_input ps" and sps: "sps = sort_key arrival ps"
    and inv: "rr_inv ps sps s"
    and stop: "\<not> (rr_ready_queue s \<noteq> [] \<or> rr_i s < length sps)"
  shows "gapless_from 0 (rr_timeline s) \<and>
         (\<forall>p\<in>set ps. seg_total (pid p) (rr_timeline s) = burst p)"
proof -
  note f = sorted_input_facts [OF valid sps]
  from inv stop have "rr_i s = length sps" and rq: "rr_ready_queue s = []"
    by (auto simp: rr_inv_def)
  with inv f(4) have "\<forall>p\<in>set ps. \<not> seg_total (pid p) (rr_timeline s) < burst p"
    by (simp add: rr_inv_def)
  moreover from inv have "\<forall>p\<in>set ps. seg_total (pid p) (rr_timeline s) \<le> burst p"
    by (simp add: rr_inv_def)
  ultimately have "\<forall>p\<in>set ps. seg_total (pid p) (rr_timeline s) = burst p"
    by fastforce
  moreover from inv have "gapless_from 0 (rr_timeline s)"
    by (auto simp: rr_inv_def dest: covers_gapless)
  ultimately show ?thesis by simp
qed

lemma rr_loop_total:
  assumes valid: "valid_input ps" and sps: "sps = sort_key arrival ps" and q: "0 < q"
  shows "rr_inv ps sps s \<Longrightarrow>
         \<exists>tml. rr_loop sps q s = Some tml \<and> gapless_from 0 tml \<and>
               (\<forall>p\<in>set ps. seg_total (pid p) tml = burst p)"
proof (induction "rr_measure ps sps s" arbitrary: s rule: less_induct)
  case less
  show ?case
  proof (cases "rr_ready_queue s \<noteq> [] \<or> rr_i s < length sps")
    case True
    have step: "rr_inv ps sps (rr_step sps q s) \<and>
         rr_measure ps sps (rr_step sps q s) < rr_measure ps sps s"
    proof (cases "rr_ready_queue s")
      case Nil
      with True have "rr_i s < length sps" by simp
      from rr_idle_inv [OF valid sps less.prems Nil this] show ?thesis .
    next
      case (Cons pr rest)
      from rr_dispatch_inv [OF valid sps q less.prems Cons] show ?thesis .
    qed
    with less.hyps obtain tml where "rr_loop sps q (rr_step sps q s) = Some tml"
      "gapless_from 0 tml" "\<forall>p\<in>set ps. seg_total (pid p) tml = burst p"
      by blast
    moreover have "rr_loop sps q s = rr_loop sps q (rr_step sps q s)"
      using True by (subst rr_loop.simps) simp
    ultimately show ?thesis by auto
  next
    case False
    then have "rr_loop sps q s = Some (rr_timeline s)"
      by (subst rr_loop.simps) simp
    with rr_final [OF valid sps less.prems False] show ?thesis by simp
  qed
qed

lemma rr_total_correctness:
  assumes valid: "valid_input ps" and q: "0 < q"
  shows "\<exists>tml. round_robin_schedule ps q = Some tml \<and> gapless_from 0 tml \<and>
               (\<forall>p\<in>set ps. seg_total (pid p) tml = burst p)"
  unfolding round_robin_schedule_def
  by (rule rr_loop_total [OF valid refl q rr_init_inv [OF valid refl]])

section \<open>Round-Robin: the queue at every iteration\<close>

lemma rr_pointer_split:
  assumes adm: "rr_admitted sps s" and arr: "rr_arrived sps s" and i: "rr_i s \<le> length sps"
  shows "take (rr_i s) sps = filter (\<lambda>p. arrival p \<le> rr_current_time s) sps"
    and "drop (rr_i s) sps = filter (\<lambda>p. rr_current_time s < arrival p) sps"
proof -
  let ?t = "rr_current_time s" and ?i = "rr_i s"
  have a: "\<forall>p\<in>set (take ?i sps). arrival p \<le> ?t"
  proof
    fix p assume "p \<in> set (take ?i sps)"
    then obtain j where "j < length (take ?i sps)" "take ?i sps ! j = p"
      by (auto simp: in_set_conv_nth)
    then show "arrival p \<le> ?t" using arr by (auto simp: rr_arrived_def)
  qed
  have b: "\<forall>p\<in>set (drop ?i sps). ?t < arrival p"
  proof
    fix p assume "p \<in> set (drop ?i sps)"
    then obtain j where j: "j < length (drop ?i sps)" "drop ?i sps ! j = p"
      by (auto simp: in_set_conv_nth)
    then have "p = sps ! (?i + j)" "?i + j < length sps" using i by auto
    then show "?t < arrival p" using adm by (fastforce simp: rr_admitted_def)
  qed
  have "filter (\<lambda>p. arrival p \<le> ?t) sps
      = filter (\<lambda>p. arrival p \<le> ?t) (take ?i sps) @ filter (\<lambda>p. arrival p \<le> ?t) (drop ?i sps)"
    by (metis append_take_drop_id filter_append)
  also have "filter (\<lambda>p. arrival p \<le> ?t) (take ?i sps) = take ?i sps"
    using a by (simp add: filter_id_conv)
  also have "filter (\<lambda>p. arrival p \<le> ?t) (drop ?i sps) = []"
    using b by (auto simp: filter_empty_conv)
  finally show "take ?i sps = filter (\<lambda>p. arrival p \<le> ?t) sps" by simp
  have "filter (\<lambda>p. ?t < arrival p) sps
      = filter (\<lambda>p. ?t < arrival p) (take ?i sps) @ filter (\<lambda>p. ?t < arrival p) (drop ?i sps)"
    by (metis append_take_drop_id filter_append)
  also have "filter (\<lambda>p. ?t < arrival p) (take ?i sps) = []"
    using a by (auto simp: filter_empty_conv)
  also have "filter (\<lambda>p. ?t < arrival p) (drop ?i sps) = drop ?i sps"
    using b by (simp add: filter_id_conv)
  finally show "drop ?i sps = filter (\<lambda>p. ?t < arrival p) sps" by simp
qed

lemma rr_arrived_after_admit:
  assumes old: "\<forall>j<i. arrival (sps ! j) \<le> t0" and le: "t0 \<le> t" and i: "i \<le> length sps"
    and a: "admit_arrived sps t i rq = (i1, rq1)"
    and s': "rr_i s' = i1" "rr_current_time s' = t"
  shows "rr_arrived sps s'"
  unfolding rr_arrived_def
proof (intro allI impI)
  fix j assume j: "j < rr_i s'"
  let ?P = "\<lambda>p. arrival p \<le> t"
  from a have i1: "i1 = i + length (takeWhile ?P (drop i sps))"
    by (simp add: admit_arrived_eq)
  show "arrival (sps ! j) \<le> rr_current_time s'"
  proof (cases "j < i")
    case True
    with old le s' show ?thesis by fastforce
  next
    case False
    with j s' i1 have k: "j - i < length (takeWhile ?P (drop i sps))" by simp
    then have "takeWhile ?P (drop i sps) ! (j - i) \<in> set (takeWhile ?P (drop i sps))"
      by (rule nth_mem)
    then have "?P (takeWhile ?P (drop i sps) ! (j - i))" by (rule set_takeWhileD [THEN conjunct2])
    moreover have "takeWhile ?P (drop i sps) ! (j - i) = drop i sps ! (j - i)"
      using k by (rule takeWhile_nth)
    moreover have "j - i < length (drop i sps)"
      using k length_takeWhile_le [of ?P "drop i sps"] by linarith
    then have "drop i sps ! (j - i) = sps ! j" using False i by simp
    ultimately show ?thesis using s' by simp
  qed
qed

lemma rr_init_arrived: "rr_arrived (sort_key arrival ps) (rr_init ps)"
proof -
  obtain i0 rq0 where a: "admit_arrived (sort_key arrival ps) 0 0 [] = (i0, rq0)"
    by (cases "admit_arrived (sort_key arrival ps) 0 0 []")
  show ?thesis
    by (rule rr_arrived_after_admit [OF _ _ _ a, of 0]) (simp_all add: rr_init_def a)
qed

lemma rr_queue_head_remaining:
  assumes valid: "valid_input ps" and sps: "sps = sort_key arrival ps"
    and inv: "rr_inv ps sps s" and rq: "rr_ready_queue s = pr # rest"
  shows "pr \<in> set ps"
    and "the (rr_remaining s (pid pr)) = burst pr - seg_total (pid pr) (rr_timeline s)"
    and "0 < the (rr_remaining s (pid pr))"
proof -
  note f = sorted_input_facts [OF valid sps]
  from inv rq have prA: "pr \<in> set (take (rr_i s) sps)" by (auto simp: rr_inv_def)
  then show prps: "pr \<in> set ps" using f(4) set_take_subset [of "rr_i s" sps] by blast
  from inv prps show r: "the (rr_remaining s (pid pr)) = burst pr - seg_total (pid pr) (rr_timeline s)"
    by (simp add: rr_inv_def)
  from inv prA rq have "seg_total (pid pr) (rr_timeline s) < burst pr"
    by (auto simp: rr_inv_def)
  with r show "0 < the (rr_remaining s (pid pr))" by simp
qed

lemma rr_step_arrived:
  assumes valid: "valid_input ps" and sps: "sps = sort_key arrival ps" and q: "0 < q"
    and inv: "rr_inv ps sps s" and arr: "rr_arrived sps s"
    and c: "rr_ready_queue s \<noteq> [] \<or> rr_i s < length sps"
  shows "rr_arrived sps (rr_step sps q s)"
proof (cases "rr_ready_queue s")
  case Nil
  with c have i: "rr_i s < length sps" by simp
  from inv have adm: "rr_admitted sps s" by (simp add: rr_inv_def)
  from adm i have lt: "rr_current_time s < arrival (sps ! rr_i s)"
    by (fastforce simp: rr_admitted_def)
  obtain i1 rq1 where a: "admit_arrived sps (arrival (sps ! rr_i s)) (rr_i s) [] = (i1, rq1)"
    by (cases "admit_arrived sps (arrival (sps ! rr_i s)) (rr_i s) []")
  show ?thesis
    by (rule rr_arrived_after_admit [OF _ _ _ a, of "rr_current_time s"])
       (use arr lt i in \<open>simp_all add: rr_arrived_def rr_step_def Nil rr_idle_step_def Let_def a\<close>)
next
  case (Cons pr rest)
  let ?e = "min q (the (rr_remaining s (pid pr)))"
  from rr_queue_head_remaining(3) [OF valid sps inv Cons] q have e: "0 < ?e" by simp
  from inv have i: "rr_i s \<le> length sps" by (simp add: rr_inv_def)
  obtain i1 rq1 where a: "admit_arrived sps (rr_current_time s + ?e) (rr_i s) rest = (i1, rq1)"
    by (cases "admit_arrived sps (rr_current_time s + ?e) (rr_i s) rest")
  show ?thesis
    by (rule rr_arrived_after_admit [OF _ _ i a, of "rr_current_time s"])
       (use arr e in \<open>simp_all add: rr_arrived_def rr_step_def Cons rr_dispatch_step_def Let_def a\<close>)
qed

lemma rr_step_inv:
  assumes valid: "valid_input ps" and sps: "sps = sort_key arrival ps" and q: "0 < q"
    and inv: "rr_inv ps sps s"
    and c: "rr_ready_queue s \<noteq> [] \<or> rr_i s < length sps"
  shows "rr_inv ps sps (rr_step sps q s)"
proof (cases "rr_ready_queue s")
  case Nil
  with c have "rr_i s < length sps" by simp
  from rr_idle_inv [OF valid sps inv Nil this] show ?thesis by simp
next
  case (Cons pr rest)
  from rr_dispatch_inv [OF valid sps q inv Cons] show ?thesis by simp
qed

lemma rr_iterate_inv:
  assumes valid: "valid_input ps" and sps: "sps = sort_key arrival ps" and q: "0 < q"
  shows "rr_inv ps sps s0 \<Longrightarrow> rr_arrived sps s0 \<Longrightarrow> rr_iterate k sps q s0 = Some s \<Longrightarrow>
         rr_inv ps sps s \<and> rr_arrived sps s \<and> rr_loop sps q s0 = rr_loop sps q s"
proof (induction k arbitrary: s0)
  case 0
  then show ?case by simp
next
  case (Suc k)
  from Suc.prems(3) have c: "rr_ready_queue s0 \<noteq> [] \<or> rr_i s0 < length sps"
    and r: "rr_iterate k sps q (rr_step sps q s0) = Some s"
    by (auto split: if_splits)
  have l: "rr_loop sps q s0 = rr_loop sps q (rr_step sps q s0)"
    using c by (subst rr_loop.simps) simp
  from Suc.IH [OF rr_step_inv [OF valid sps q Suc.prems(1) c]
      rr_step_arrived [OF valid sps q Suc.prems(1,2) c] r] l
  show ?case by simp
qed

lemma rr_iterate_Suc:
  "rr_iterate k sps q s0 = Some s \<Longrightarrow> rr_ready_queue s \<noteq> [] \<or> rr_i s < length sps \<Longrightarrow>
   rr_iterate (Suc k) sps q s0 = Some (rr_step sps q s)"
proof (induction k arbitrary: s0)
  case 0
  then show ?case by simp
next
  case (Suc k)
  from Suc.prems(1) have c: "rr_ready_queue s0 \<noteq> [] \<or> rr_i s0 < length sps"
    and r: "rr_iterate k sps q (rr_step sps q s0) = Some s"
    by (auto split: if_splits)
  from Suc.IH [OF r Suc.prems(2)] c show ?case by simp
qed

lemma rr_step_timeline: "\<exists>g. rr_timeline (rr_step sps q s) = rr_timeline s @ [g]"
  by (simp add: rr_step_def rr_idle_step_def rr_dispatch_step_def Let_def split_beta)

lemma rr_loop_prefix:
  assumes "rr_loop sps q s = Some tml"
  shows "take (length (rr_timeline s)) tml = rr_timeline s"
proof (rule rr_loop.raw_induct [OF _ assms])
  fix loop sps q s y
  assume IH: "\<And>sps q s y. loop sps q s = Some y \<Longrightarrow> take (length (rr_timeline s)) y = rr_timeline s"
    and unf: "(if rr_ready_queue s \<noteq> [] \<or> rr_i s < length sps
               then loop sps q (rr_step sps q s) else Some (rr_timeline s)) = Some y"
  show "take (length (rr_timeline s)) y = rr_timeline s"
  proof (cases "rr_ready_queue s \<noteq> [] \<or> rr_i s < length sps")
    case True
    with unf have "loop sps q (rr_step sps q s) = Some y" by simp
    from IH [OF this] obtain g where
      t: "take (Suc (length (rr_timeline s))) y = rr_timeline s @ [g]"
      using rr_step_timeline [of sps q s] by auto
    have "take (length (rr_timeline s)) y
        = take (length (rr_timeline s)) (take (Suc (length (rr_timeline s))) y)"
      by simp
    also have "\<dots> = rr_timeline s" unfolding t by simp
    finally show ?thesis .
  next
    case False
    with unf show ?thesis by auto
  qed
qed

lemma rr_init_queue:
  "rr_ready_queue (rr_init ps) = filter (\<lambda>p. arrival p \<le> 0) (sort_key arrival ps)"
proof -
  have "sorted (map arrival (sort_key arrival ps))" by simp
  from takeWhile_arrival_filter [OF this, of 0] show ?thesis
    by (simp add: rr_init_def admit_arrived_eq)
qed

lemma rr_queue_admitted:
  assumes valid: "valid_input ps" and sps: "sps = sort_key arrival ps"
    and inv: "rr_inv ps sps s" and arr: "rr_arrived sps s"
  shows "distinct (rr_ready_queue s)"
    and "set (rr_ready_queue s) =
           {p \<in> set ps. arrival p \<le> rr_current_time s \<and> 0 < the (rr_remaining s (pid p))}"
proof -
  note f = sorted_input_facts [OF valid sps]
  from inv have adm: "rr_admitted sps s" and i: "rr_i s \<le> length sps"
    and sub: "set (rr_ready_queue s) \<subseteq> set (take (rr_i s) sps)"
    and rem: "\<forall>p\<in>set ps. rr_remaining s (pid p)
                = Some (burst p - seg_total (pid p) (rr_timeline s))"
    and mem: "\<forall>p\<in>set (take (rr_i s) sps).
        p \<in> set (rr_ready_queue s) \<longleftrightarrow> seg_total (pid p) (rr_timeline s) < burst p"
    by (simp_all add: rr_inv_def)
  from inv show "distinct (rr_ready_queue s)" by (simp add: rr_inv_def)
  have tk: "set (take (rr_i s) sps) = {p \<in> set ps. arrival p \<le> rr_current_time s}"
    using rr_pointer_split(1) [OF adm arr i] f(4) by simp
  show "set (rr_ready_queue s) =
           {p \<in> set ps. arrival p \<le> rr_current_time s \<and> 0 < the (rr_remaining s (pid p))}"
  proof (intro set_eqI iffI)
    fix p assume p: "p \<in> set (rr_ready_queue s)"
    with sub have pt: "p \<in> set (take (rr_i s) sps)" by blast
    with tk have pp: "p \<in> set ps" "arrival p \<le> rr_current_time s" by auto
    from mem pt p have "seg_total (pid p) (rr_timeline s) < burst p" by blast
    with rem pp(1) have "0 < the (rr_remaining s (pid p))" by simp
    with pp show "p \<in> {p \<in> set ps. arrival p \<le> rr_current_time s \<and>
        0 < the (rr_remaining s (pid p))}" by simp
  next
    fix p assume "p \<in> {p \<in> set ps. arrival p \<le> rr_current_time s \<and>
        0 < the (rr_remaining s (pid p))}"
    then have pp: "p \<in> set ps" "arrival p \<le> rr_current_time s"
      and r: "0 < the (rr_remaining s (pid p))" by simp_all
    from pp tk have pt: "p \<in> set (take (rr_i s) sps)" by simp
    from rem pp(1) r have "seg_total (pid p) (rr_timeline s) < burst p" by simp
    with mem pt show "p \<in> set (rr_ready_queue s)" by blast
  qed
qed

lemma rr_dispatch_arrivals:
  assumes valid: "valid_input ps" and sps: "sps = sort_key arrival ps"
    and inv: "rr_inv ps sps s" and arr: "rr_arrived sps s"
    and rq: "rr_ready_queue s = pr # rest"
  shows "rr_ready_queue (rr_step sps q s) =
           rest @
           filter (\<lambda>p. rr_current_time s < arrival p \<and>
                        arrival p \<le> rr_current_time s + min q (the (rr_remaining s (pid pr)))) sps @
           (if min q (the (rr_remaining s (pid pr))) < the (rr_remaining s (pid pr))
            then [pr] else [])"
proof -
  note f = sorted_input_facts [OF valid sps]
  from inv have adm: "rr_admitted sps s" and i: "rr_i s \<le> length sps"
    by (simp_all add: rr_inv_def)
  have d: "drop (rr_i s) sps = filter (\<lambda>p. rr_current_time s < arrival p) sps"
    by (rule rr_pointer_split(2) [OF adm arr i])
  from rr_dispatch_effect [OF f(3) rq, of q]
  show ?thesis
    by (simp add: Let_def d conj_commute)
qed

lemma rr_idle_effect:
  assumes valid: "valid_input ps" and sps: "sps = sort_key arrival ps"
    and inv: "rr_inv ps sps s" and arr: "rr_arrived sps s"
    and rq: "rr_ready_queue s = []" and i: "rr_i s < length sps"
  shows "rr_current_time s < rr_current_time (rr_step sps q s)"
    and "\<forall>p\<in>set ps. rr_current_time s < arrival p \<longrightarrow>
           rr_current_time (rr_step sps q s) \<le> arrival p"
    and "rr_timeline (rr_step sps q s) =
           rr_timeline s @ [mk_seg Idle (rr_current_time s) (rr_current_time (rr_step sps q s))]"
    and "rr_remaining (rr_step sps q s) = rr_remaining s"
    and "rr_ready_queue (rr_step sps q s) =
           filter (\<lambda>p. arrival p = rr_current_time (rr_step sps q s)) sps"
    and "rr_ready_queue (rr_step sps q s) \<noteq> []"
proof -
  note f = sorted_input_facts [OF valid sps]
  let ?t = "rr_current_time s" and ?nxt = "arrival (sps ! rr_i s)"
  let ?s' = "rr_step sps q s"
  from inv have adm: "rr_admitted sps s" by (simp add: rr_inv_def)
  have d: "drop (rr_i s) sps = filter (\<lambda>p. ?t < arrival p) sps"
    by (rule rr_pointer_split(2) [OF adm arr]) (use i in simp)
  have srtd: "sorted (map arrival (drop (rr_i s) sps))"
    using f(3) by (simp add: sorted_wrt_drop drop_map [symmetric])
  have tw: "takeWhile (\<lambda>p. arrival p \<le> ?nxt) (drop (rr_i s) sps)
          = filter (\<lambda>p. arrival p \<le> ?nxt) (drop (rr_i s) sps)"
    by (rule takeWhile_arrival_filter [OF srtd])
  have t': "rr_current_time ?s' = ?nxt"
    by (simp add: rr_step_def rq rr_idle_step_def Let_def split_beta)
  have hd: "drop (rr_i s) sps = sps ! rr_i s # drop (Suc (rr_i s)) sps"
    using i by (simp add: Cons_nth_drop_Suc)
  have low: "\<forall>p\<in>set (drop (rr_i s) sps). ?nxt \<le> arrival p"
    using srtd by (subst (asm) hd, subst hd) auto
  have "sps ! rr_i s \<in> set (drop (rr_i s) sps)" by (subst hd) simp
  then have lt: "?t < ?nxt" by (simp add: d)
  then show "?t < rr_current_time ?s'" by (simp add: t')
  show min: "\<forall>p\<in>set ps. ?t < arrival p \<longrightarrow> rr_current_time ?s' \<le> arrival p"
  proof (intro ballI impI)
    fix p assume "p \<in> set ps" "?t < arrival p"
    then have "p \<in> set (drop (rr_i s) sps)" using f(4) by (simp add: d)
    with low show "rr_current_time ?s' \<le> arrival p" by (simp add: t')
  qed
  show "rr_timeline ?s' = rr_timeline s @ [mk_seg Idle ?t (rr_current_time ?s')]"
    by (simp add: rr_step_def rq rr_idle_step_def Let_def split_beta)
  show "rr_remaining ?s' = rr_remaining s"
    by (simp add: rr_step_def rq rr_idle_step_def Let_def split_beta)
  have "rr_ready_queue ?s' = takeWhile (\<lambda>p. arrival p \<le> ?nxt) (drop (rr_i s) sps)"
    by (simp add: rr_step_def rq rr_idle_step_def Let_def admit_arrived_eq)
  also have "\<dots> = filter (\<lambda>p. arrival p \<le> ?nxt) (filter (\<lambda>p. ?t < arrival p) sps)"
    unfolding tw by (subst d) (rule refl)
  finally have q': "rr_ready_queue ?s' = filter (\<lambda>p. ?t < arrival p \<and> arrival p \<le> ?nxt) sps"
    by (simp add: conj_commute)
  have "filter (\<lambda>p. ?t < arrival p \<and> arrival p \<le> ?nxt) sps = filter (\<lambda>p. arrival p = ?nxt) sps"
  proof (rule filter_cong [OF refl])
    fix p assume "p \<in> set sps"
    then show "(?t < arrival p \<and> arrival p \<le> ?nxt) = (arrival p = ?nxt)"
      using min lt f(4) by (auto simp: t')
  qed
  with q' show q'': "rr_ready_queue ?s' = filter (\<lambda>p. arrival p = rr_current_time ?s') sps"
    by (simp add: t')
  have "sps ! rr_i s \<in> set sps" using i by simp
  then show "rr_ready_queue ?s' \<noteq> []"
    unfolding q'' t' by (auto simp: filter_empty_conv)
qed

lemma rr_pending_iff:
  assumes valid: "valid_input ps" and sps: "sps = sort_key arrival ps"
    and inv: "rr_inv ps sps s" and arr: "rr_arrived sps s"
  shows "rr_i s < length sps \<longleftrightarrow> (\<exists>p\<in>set ps. rr_current_time s < arrival p)"
proof -
  note f = sorted_input_facts [OF valid sps]
  from inv have adm: "rr_admitted sps s" and i: "rr_i s \<le> length sps"
    by (simp_all add: rr_inv_def)
  have d: "drop (rr_i s) sps = filter (\<lambda>p. rr_current_time s < arrival p) sps"
    by (rule rr_pointer_split(2) [OF adm arr i])
  have "rr_i s < length sps \<longleftrightarrow> drop (rr_i s) sps \<noteq> []" by auto
  also have "\<dots> \<longleftrightarrow> (\<exists>p\<in>set ps. rr_current_time s < arrival p)"
    unfolding d using f(4) by (auto simp: filter_empty_conv)
  finally show ?thesis .
qed
section \<open>Multi-processor Round-Robin: one processor in a time unit\<close>

lemma for_processors_snoc:
  "for_processors tq (xs @ [i]) s =
     (case for_processors tq xs s of Inl e \<Rightarrow> Inl e | Inr s1 \<Rightarrow> processor_body tq i s1)"
  by (induction xs arbitrary: s) (auto split: sum.splits)

lemma update_running_effect:
  assumes "update_running i s = Inr s1"
  shows "(\<exists>r. length r \<le> 1 \<and> mp_ready_queue s1 = mp_ready_queue s @ r) \<and>
         (\<forall>j. j \<noteq> i \<longrightarrow> processors s1 ! j = processors s ! j)"
  using assms
  by (auto simp: update_running_def Let_def set_processor_def
           split: option.splits if_splits)

lemma record_idle_effect:
  assumes "record_idle i s = Inr s1"
  shows "mp_ready_queue s1 = mp_ready_queue s \<and>
         (\<forall>j. j \<noteq> i \<longrightarrow> processors s1 ! j = processors s ! j)"
  using assms
  by (auto simp: record_idle_def Let_def set_processor_def split: option.splits if_splits)

lemma assign_or_idle_effect:
  assumes "assign_or_idle tq i s = Inr s1"
  shows "(mp_ready_queue s1 = mp_ready_queue s \<or> mp_ready_queue s1 = tl (mp_ready_queue s)) \<and>
         (\<forall>j. j \<noteq> i \<longrightarrow> processors s1 ! j = processors s ! j)"
  using assms
  by (auto simp: assign_or_idle_def Let_def set_processor_def
           split: option.splits if_splits list.splits dest!: record_idle_effect)

lemma processor_body_effect:
  assumes "processor_body tq i s = Inr s'"
  shows "(\<exists>r. length r \<le> 1 \<and>
            (mp_ready_queue s' = mp_ready_queue s @ r \<or>
             mp_ready_queue s' = tl (mp_ready_queue s @ r))) \<and>
         (\<forall>j. j \<noteq> i \<longrightarrow> processors s' ! j = processors s ! j)"
proof -
  from assms obtain s1 where u: "update_running i s = Inr s1" and a: "assign_or_idle tq i s1 = Inr s'"
    by (auto simp: processor_body_def split: sum.splits)
  from update_running_effect [OF u] obtain r where r: "length r \<le> 1"
    "mp_ready_queue s1 = mp_ready_queue s @ r"
    and o1: "\<forall>j. j \<noteq> i \<longrightarrow> processors s1 ! j = processors s ! j" by auto
  from assign_or_idle_effect [OF a] have
    q: "mp_ready_queue s' = mp_ready_queue s1 \<or> mp_ready_queue s' = tl (mp_ready_queue s1)"
    and o2: "\<forall>j. j \<noteq> i \<longrightarrow> processors s' ! j = processors s1 ! j" by auto
  from r q have "length r \<le> 1 \<and>
            (mp_ready_queue s' = mp_ready_queue s @ r \<or>
             mp_ready_queue s' = tl (mp_ready_queue s @ r))" by auto
  with o1 o2 show ?thesis by auto
qed

lemma free_processor_takes_head:
  assumes "i < length (processors s)" "proc (processors s ! i) = None"
    "mp_ready_queue s = k # rest" "k \<notin> finished s" "get_process k (processes s) = Some p"
  shows "\<exists>s'. processor_body tq i s = Inr s' \<and> proc (processors s' ! i) = Some k \<and>
              remaining_slice (processors s' ! i) = min tq (remaining p) \<and>
              event_start (processors s' ! i) = Some (global_time s) \<and>
              mp_ready_queue s' = rest"
  using assms
  by (simp add: processor_body_def update_running_def assign_or_idle_def record_idle_def
        set_processor_def Let_def)

lemma get_process_pid: "get_process k ps = Some p \<Longrightarrow> pid p = k"
  by (auto simp: get_process_def find_Some_iff)

lemma get_process_dec_remaining:
  "get_process k ps = Some p \<Longrightarrow>
   get_process k (dec_remaining k ps) = Some (p\<lparr>remaining := remaining p - 1\<rparr>)"
  by (induction ps) (auto simp: get_process_def split: if_splits)

lemma for_processors_append:
  "for_processors tq (xs @ ys) s =
     (case for_processors tq xs s of Inl e \<Rightarrow> Inl e | Inr s1 \<Rightarrow> for_processors tq ys s1)"
  by (induction xs arbitrary: s) (auto split: sum.splits)

lemma for_processors_others:
  "for_processors tq xs s = Inr s' \<Longrightarrow> i \<notin> set xs \<Longrightarrow> processors s' ! i = processors s ! i"
proof (induction xs arbitrary: s)
  case Nil
  then show ?case by simp
next
  case (Cons x xs)
  from Cons.prems(1) obtain s1 where b: "processor_body tq x s = Inr s1"
    and r: "for_processors tq xs s1 = Inr s'"
    by (auto split: sum.splits)
  from processor_body_effect [OF b] Cons.prems(2) have "processors s1 ! i = processors s ! i"
    by simp
  with Cons.IH [OF r] Cons.prems(2) show ?case by simp
qed

lemma update_running_free:
  "proc (processors s ! i) = None \<Longrightarrow> update_running i s = Inr s"
  by (simp add: update_running_def)

lemma update_running_busy:
  assumes i: "i < length (processors s)" and k: "proc (processors s ! i) = Some k"
    and p: "get_process k (processes s) = Some p" and u: "update_running i s = Inr s1"
  shows "get_process k (processes s1) = Some (p\<lparr>remaining := remaining p - 1\<rparr>) \<and>
         (if remaining p = 1 then
            schedule_events s1 = schedule_events s @
              [(k, event_start (processors s ! i), global_time s + 1, i + 1)] \<and>
            finished s1 = insert k (finished s) \<and>
            mp_ready_queue s1 = mp_ready_queue s \<and>
            proc (processors s1 ! i) = None
          else if remaining_slice (processors s ! i) = 1 then
            schedule_events s1 = schedule_events s @
              [(k, event_start (processors s ! i), global_time s + 1, i + 1)] \<and>
            finished s1 = finished s \<and>
            mp_ready_queue s1 = mp_ready_queue s @ [k] \<and>
            proc (processors s1 ! i) = None
          else
            schedule_events s1 = schedule_events s \<and>
            finished s1 = finished s \<and>
            mp_ready_queue s1 = mp_ready_queue s \<and>
            proc (processors s1 ! i) = Some k \<and>
            remaining_slice (processors s1 ! i) = remaining_slice (processors s ! i) - 1)"
  using u i get_process_pid [OF p] get_process_dec_remaining [OF p]
  by (auto simp: update_running_def k p Let_def set_processor_def split: if_splits)

lemma assign_or_idle_takes_head:
  assumes "i < length (processors s)" "proc (processors s ! i) = None"
    "mp_ready_queue s = k # rest" "k \<notin> finished s" "get_process k (processes s) = Some p"
    "assign_or_idle tq i s = Inr s'"
  shows "proc (processors s' ! i) = Some k \<and>
         remaining_slice (processors s' ! i) = min tq (remaining p) \<and>
         event_start (processors s' ! i) = Some (global_time s) \<and>
         mp_ready_queue s' = rest"
  using assms
  by (auto simp: assign_or_idle_def record_idle_def set_processor_def Let_def)

lemma assign_or_idle_skips_finished:
  assumes "proc (processors s ! i) = None" "mp_ready_queue s = k # rest" "k \<in> finished s"
    "assign_or_idle tq i s = Inr s'"
  shows "s' = s\<lparr>mp_ready_queue := rest\<rparr>"
  using assms by (auto simp: assign_or_idle_def Let_def)

lemma assign_or_idle_busy:
  assumes "i < length (processors s)" "proc (processors s ! i) \<noteq> None"
    "assign_or_idle tq i s = Inr s'"
  shows "mp_ready_queue s' = mp_ready_queue s \<and> proc (processors s' ! i) = proc (processors s ! i) \<and>
         remaining_slice (processors s' ! i) = remaining_slice (processors s ! i)"
  using assms
  by (auto simp: assign_or_idle_def record_idle_def set_processor_def Let_def)
section \<open>The four single-processor schedulers on valid input\<close>

lemma seg_total_single_owner:
  "distinct (owners T) \<Longrightarrow> g \<in> set T \<Longrightarrow> seg_id g = k \<Longrightarrow> k \<noteq> Idle \<Longrightarrow>
   seg_total k T = seg_end g - seg_start g"
proof (induction T)
  case Nil
  then show ?case by simp
next
  case (Cons a T)
  have none: "seg_total k T = 0" if "k \<notin> set (owners T)"
  proof -
    from that Cons.prems(4) have "filter (\<lambda>g. seg_id g = k \<and> seg_id g \<noteq> Idle) T = []"
      by (auto simp: owners_def filter_empty_conv)
    then show ?thesis by (simp add: seg_total_def)
  qed
  show ?case
  proof (cases "a = g")
    case True
    with Cons.prems have "k \<notin> set (owners T)" by (auto simp: owners_def)
    with True Cons.prems none show ?thesis by (simp add: seg_total_def)
  next
    case False
    with Cons.prems have gT: "g \<in> set T" by simp
    then have "k \<in> set (owners T)" using Cons.prems by (auto simp: owners_def)
    with Cons.prems(1) have "seg_id a \<noteq> k \<or> seg_id a = Idle" by (auto simp: owners_def)
    moreover from Cons.prems(1) have "distinct (owners T)" by (auto simp: owners_def split: if_splits)
    ultimately show ?thesis
      using Cons.IH [OF _ gT Cons.prems(3,4)] Cons.prems(4) by (auto simp: seg_total_def)
  qed
qed

lemma fcfs_seg_total:
  assumes valid: "valid_input ps" and p: "p \<in> set ps"
  shows "seg_total (pid p) (fcfs_schedule ps) = burst p"
proof -
  let ?T = "fcfs_schedule ps"
  from valid have dmap: "distinct (map pid ps)" and ni: "pid p \<noteq> Idle"
    using p by (auto simp: valid_input_def)
  from fcfs_total_correctness [OF valid] have own: "owners ?T = map pid (sort_key arrival ps)"
    and len: "\<forall>g\<in>set ?T. seg_id g \<noteq> Idle \<longrightarrow>
            (\<exists>p\<in>set ps. pid p = seg_id g \<and> seg_end g = seg_start g + burst p)"
    by auto
  have d: "distinct (owners ?T)"
    unfolding own using sorted_input_facts(2) [OF valid refl] .
  from p have "pid p \<in> set (owners ?T)" by (simp add: own)
  then obtain g where g: "g \<in> set ?T" "seg_id g = pid p" by (auto simp: owners_def)
  with len ni obtain p' where p': "p' \<in> set ps" "pid p' = pid p" "seg_end g = seg_start g + burst p'"
    by auto
  from dmap p p'(1,2) have "p' = p" by (metis distinct_map inj_onD)
  with p'(3) seg_total_single_owner [OF d g ni] show ?thesis by simp
qed

lemma sjf_seg_total:
  assumes valid: "valid_input ps" and p: "p \<in> set ps"
    and pol: "sjf_policy ps T" and own: "mset (owners T) = mset (map pid ps)"
  shows "seg_total (pid p) T = burst p"
proof -
  from valid have dmap: "distinct (map pid ps)" and ni: "pid p \<noteq> Idle"
    using p by (auto simp: valid_input_def)
  from dmap have d: "distinct (owners T)"
    using mset_eq_imp_distinct_iff [OF own] by blast
  from own have "set (owners T) = set (map pid ps)" by (rule mset_eq_setD)
  with p have "pid p \<in> set (owners T)" by simp
  then obtain g where g: "g \<in> set T" "seg_id g = pid p" by (auto simp: owners_def)
  then obtain j where j: "j < length T" "T ! j = g" by (auto simp: in_set_conv_nth)
  with pol g ni obtain p' where p': "p' \<in> set ps" "pid p' = pid p" "seg_end g = seg_start g + burst p'"
    unfolding sjf_policy_def by (metis (no_types, lifting))
  from dmap p p'(1,2) have "p' = p" by (metis distinct_map inj_onD)
  with p'(3) seg_total_single_owner [OF d g ni] show ?thesis by simp
qed

lemma single_processor_timelines_correct:
  assumes valid: "valid_input ps" and q: "0 < q"
  shows "gapless_from 0 (fcfs_schedule ps) \<and>
         (\<forall>p\<in>set ps. seg_total (pid p) (fcfs_schedule ps) = burst p)"
    and "\<exists>tml. sjf_non_preemptive_schedule ps = Some (Inr tml) \<and> gapless_from 0 tml \<and>
               (\<forall>p\<in>set ps. seg_total (pid p) tml = burst p)"
    and "\<exists>tml. sjf_preemptive_schedule ps = Some tml \<and> gapless_from 0 tml \<and>
               (\<forall>p\<in>set ps. seg_total (pid p) tml = burst p)"
    and "\<exists>tml. round_robin_schedule ps q = Some tml \<and> gapless_from 0 tml \<and>
               (\<forall>p\<in>set ps. seg_total (pid p) tml = burst p)"
proof -
  show "gapless_from 0 (fcfs_schedule ps) \<and>
         (\<forall>p\<in>set ps. seg_total (pid p) (fcfs_schedule ps) = burst p)"
    using fcfs_total_correctness [OF valid] fcfs_seg_total [OF valid] by simp
  from sjf_total_correctness [OF valid] obtain tml where
    t: "sjf_non_preemptive_schedule ps = Some (Inr tml)" "gapless_from 0 tml"
      "sjf_policy ps tml" "mset (owners tml) = mset (map pid ps)" by blast
  then have "\<forall>p\<in>set ps. seg_total (pid p) tml = burst p"
    using sjf_seg_total [OF valid] by blast
  with t show "\<exists>tml. sjf_non_preemptive_schedule ps = Some (Inr tml) \<and> gapless_from 0 tml \<and>
               (\<forall>p\<in>set ps. seg_total (pid p) tml = burst p)" by blast
  show "\<exists>tml. sjf_preemptive_schedule ps = Some tml \<and> gapless_from 0 tml \<and>
               (\<forall>p\<in>set ps. seg_total (pid p) tml = burst p)"
    using srtf_total_correctness [OF valid] by blast
  show "\<exists>tml. round_robin_schedule ps q = Some tml \<and> gapless_from 0 tml \<and>
               (\<forall>p\<in>set ps. seg_total (pid p) tml = burst p)"
    by (rule rr_total_correctness [OF valid q])
qed

section \<open>The schedulers on references refine the schedulers on values\<close>

subsection \<open>Store\<close>

lemma writes_only_refl: "writes_only l st st"
  by (simp add: writes_only_def)

lemma writes_only_trans:
  "writes_only l st st1 \<Longrightarrow> writes_only l st1 st2 \<Longrightarrow> writes_only l st st2"
  by (simp add: writes_only_def)

lemma writes_only_append: "writes_only l st (list_append l x st)"
  by (simp add: writes_only_def list_append_def)

lemma writes_only_sort: "writes_only l st (list_sort key l st)"
  by (simp add: writes_only_def list_sort_def)

lemma writes_only_pop0: "writes_only l st (snd (list_pop0 l st))"
  by (simp add: writes_only_def list_pop0_def)

lemma writes_only_load:
  "writes_only l st st' \<Longrightarrow> k \<noteq> l \<Longrightarrow> load st' k = load st k"
  by (simp add: writes_only_def load_def)

lemma unchanged_refl: "unchanged st st"
  by (simp add: unchanged_def)

lemma unchanged_trans: "unchanged st st1 \<Longrightarrow> unchanged st1 st2 \<Longrightarrow> unchanged st st2"
  by (auto simp: unchanged_def)

lemma unchanged_new_list: "unchanged st (snd (new_list xs st))"
  by (simp add: unchanged_def new_list_def)

lemma unchanged_writes_only:
  "writes_only l st st' \<Longrightarrow> next_list st0 \<le> l \<Longrightarrow> unchanged st0 st \<Longrightarrow> unchanged st0 st'"
  by (auto simp: unchanged_def writes_only_def)

lemma unchanged_load: "unchanged st st' \<Longrightarrow> l < next_list st \<Longrightarrow> load st' l = load st l"
  by (simp add: unchanged_def load_def)

lemma map_insort_key:
  "map f (insort_key (\<lambda>x. g (f x)) x xs) = insort_key g (f x) (map f xs)"
  by (induction xs) simp_all

lemma map_sort_key: "map f (sort_key (\<lambda>x. g (f x)) xs) = sort_key g (map f xs)"
  by (induction xs) (simp_all add: map_insort_key)

lemma sorted_r_effect:
  assumes "sorted_r key l st = (l', st')"
  shows "l' = next_list st" "dict_at st' = dict_at st" "next_list st' = Suc (next_list st)"
    "list_at st' = (list_at st)(l' := sort_key (\<lambda>p. key (dict_at st p)) (list_at st l))"
    "load st' l' = sort_key key (load st l)" "unchanged st st'"
  using assms by (auto simp: sorted_r_def new_list_def load_def map_sort_key unchanged_def)

subsection \<open>FCFS\<close>

lemma fcfs_loop_r_eq: "fcfs_loop_r st rs T t = fcfs_loop (map (dict_at st) rs) T t"
  by (induction rs arbitrary: T t) simp_all

lemma fcfs_schedule_r_refines:
  "\<exists>st'. fcfs_schedule_r l st = (fcfs_schedule (load st l), st') \<and> unchanged st st'"
proof -
  obtain l' st' where s: "sorted_r arrival l st = (l', st')" by (cases "sorted_r arrival l st")
  show ?thesis
    using sorted_r_effect(5,6) [OF s]
    by (simp add: fcfs_schedule_r_def s fcfs_loop_r_eq fcfs_schedule_def load_def)
qed

subsection \<open>SJF\<close>

lemma admit_ready_r_effect:
  "writes_only rq st (admit_ready_r cs t rq rs st) \<and>
   load (admit_ready_r cs t rq rs st) rq = admit_ready cs t (map (dict_at st) rs) (load st rq)"
proof (induction rs arbitrary: st)
  case Nil
  show ?case by (simp add: writes_only_refl)
next
  case (Cons r rs)
  let ?st1 = "list_append rq r st"
  have d: "dict_at ?st1 = dict_at st" and l: "load ?st1 rq = load st rq @ [dict_at st r]"
    by (simp_all add: list_append_def load_def)
  show ?case
    using Cons [of st] Cons [of ?st1] writes_only_trans [OF writes_only_append [of rq st r]]
    by (simp add: d l)
qed


lemma list_sort_effect:
  "dict_at (list_sort key l st) = dict_at st"
  "load (list_sort key l st) l = sort_key key (load st l)"
  by (simp_all add: list_sort_def load_def map_sort_key)

lemma list_pop0_effect:
  assumes "list_at st l \<noteq> []"
  shows "dict_at (snd (list_pop0 l st)) = dict_at st"
    "load (snd (list_pop0 l st)) l = tl (load st l)"
    "dict_at st (fst (list_pop0 l st)) = hd (load st l)"
  using assms by (simp_all add: list_pop0_def load_def map_tl hd_map)

lemma sjf_body_r_effect:
  assumes ne: "psr \<noteq> rq"
  shows "writes_only rq st (snd (sjf_body_r psr rq sr st)) \<and>
         sjf_body (load st psr) (sjf_deref st rq sr) =
           map_sum id (sjf_deref (snd (sjf_body_r psr rq sr st)) rq)
             (fst (sjf_body_r psr rq sr st))"
proof -
  define st1 where "st1 = admit_ready_r (completed_processes_r sr) (sjf_current_time_r sr) rq
                            (list_at st psr) st"
  have w1: "writes_only rq st st1"
    and l1: "load st1 rq = admit_ready (completed_processes_r sr) (sjf_current_time_r sr)
                             (load st psr) (load st rq)"
    using admit_ready_r_effect [of rq st "completed_processes_r sr" "sjf_current_time_r sr"
        "list_at st psr"]
    by (simp_all add: st1_def load_def)
  have d1: "dict_at st1 = dict_at st" and p1: "list_at st1 psr = list_at st psr"
    using w1 ne by (simp_all add: writes_only_def)
  have e1: "list_at st1 rq = [] \<longleftrightarrow> load st1 rq = []" by (simp add: load_def)
  show ?thesis
  proof (cases "list_at st1 rq = []")
    case True
    let ?F = "filter (\<lambda>p. pid (dict_at st p) \<notin> completed_processes_r sr) (list_at st psr)"
    have f: "filter (\<lambda>p. pid p \<notin> completed_processes_r sr) (load st psr) = map (dict_at st) ?F"
      by (simp add: load_def filter_map comp_def)
    have lq: "load st1 rq = []" using True e1 by simp
    show ?thesis
    proof (cases ?F)
      case Nil
      then show ?thesis
        using True w1 f l1 lq
        by (simp add: sjf_body_r_def sjf_body_def st1_def [symmetric] d1 p1 sjf_deref_def Let_def)
    next
      case (Cons q qs)
      then show ?thesis
        using True w1 f l1 lq
        by (simp add: sjf_body_r_def sjf_body_def st1_def [symmetric] d1 p1 sjf_deref_def
            Let_def comp_def)
    qed
  next
    case False
    define st2 where "st2 = list_sort burst rq st1"
    define st3 where "st3 = snd (list_pop0 rq st2)"
    define sp where "sp = fst (list_pop0 rq st2)"
    have ne1: "load st1 rq \<noteq> []" using False e1 by simp
    have l2: "load st2 rq = sort_key burst (load st1 rq)" and d2: "dict_at st2 = dict_at st1"
      by (simp_all add: st2_def list_sort_effect)
    have "length (list_at st2 rq) = length (list_at st1 rq)"
      by (simp add: st2_def list_sort_def)
    with False have ne2: "list_at st2 rq \<noteq> []"
      by (cases "list_at st2 rq") simp_all
    have d3: "dict_at st3 = dict_at st" and l3: "load st3 rq = tl (sort_key burst (load st1 rq))"
      and h3: "dict_at st sp = hd (sort_key burst (load st1 rq))"
      using list_pop0_effect [OF ne2] by (simp_all add: st3_def sp_def d2 d1 l2)
    have w3: "writes_only rq st st3"
      unfolding st3_def st2_def
      by (rule writes_only_trans [OF w1 writes_only_trans [OF writes_only_sort writes_only_pop0]])
    have pop: "list_pop0 rq st2 = (sp, st3)" by (simp add: sp_def st3_def)
    show ?thesis
      using False w3 ne1
      by (simp add: sjf_body_r_def sjf_body_def st1_def [symmetric] st2_def [symmetric] pop
          sjf_deref_def Let_def d3 l3 h3 l1 [symmetric])
  qed
qed

lemma sjf_loop_r_refines_aux:
  assumes ne: "psr \<noteq> rq" "L \<noteq> rq" and run: "sjf_loop ps n s = Some y"
  shows "\<forall>st sr. ps = load st psr \<and> n = length (list_at st L) \<and> s = sjf_deref st rq sr \<longrightarrow>
           (\<exists>st'. sjf_loop_r L psr rq sr st = Some (y, st') \<and> writes_only rq st st')"
proof (rule sjf_loop.raw_induct [OF _ run], intro allI impI, elim conjE)
  fix loop ps n s y st sr
  assume IH: "\<And>ps n s y. loop ps n s = Some y \<Longrightarrow>
      \<forall>st sr. ps = load st psr \<and> n = length (list_at st L) \<and> s = sjf_deref st rq sr \<longrightarrow>
           (\<exists>st'. sjf_loop_r L psr rq sr st = Some (y, st') \<and> writes_only rq st st')"
    and unf: "(if card (completed_processes s) < n
               then case sjf_body ps s of Inl e \<Rightarrow> Some (Inl e) | Inr s1 \<Rightarrow> loop ps n s1
               else Some (Inr (sjf_timeline s))) = Some y"
    and ps: "ps = load st psr" and n: "n = length (list_at st L)"
    and s: "s = sjf_deref st rq sr"
  obtain res st1 where b: "sjf_body_r psr rq sr st = (res, st1)"
    by (cases "sjf_body_r psr rq sr st")
  from sjf_body_r_effect [OF ne(1), of st sr] b
  have w: "writes_only rq st st1"
    and v: "sjf_body ps s = map_sum id (sjf_deref st1 rq) res"
    by (simp_all add: ps s)
  have c: "completed_processes s = completed_processes_r sr"
    and t: "sjf_timeline s = sjf_timeline_r sr"
    by (simp_all add: s sjf_deref_def)
  show "\<exists>st'. sjf_loop_r L psr rq sr st = Some (y, st') \<and> writes_only rq st st'"
  proof (cases "card (completed_processes_r sr) < length (list_at st L)")
    case False
    then show ?thesis
      using unf c t n by (subst sjf_loop_r.simps) (auto simp: writes_only_refl)
  next
    case True
    show ?thesis
    proof (cases res)
      case (Inl e)
      then show ?thesis
        using unf c True v w b n by (subst sjf_loop_r.simps) auto
    next
      case (Inr sr1)
      have run1: "loop ps n (sjf_deref st1 rq sr1) = Some y"
        using unf c True v Inr n by simp
      have ps1: "ps = load st1 psr" and n1: "n = length (list_at st1 L)"
        using w ne ps n by (simp_all add: writes_only_def load_def)
      from IH [OF run1] ps1 n1
      obtain st' where r: "sjf_loop_r L psr rq sr1 st1 = Some (y, st')"
        and w': "writes_only rq st1 st'" by blast
      show ?thesis
        using True b Inr r writes_only_trans [OF w w']
        by (subst sjf_loop_r.simps) simp
    qed
  qed
qed

lemma sjf_schedule_r_refines:
  assumes run: "sjf_non_preemptive_schedule (load st l) = Some y" and l: "l < next_list st"
  shows "\<exists>st'. sjf_non_preemptive_schedule_r l st = Some (y, st') \<and> unchanged st st'"
proof -
  obtain psr st1 where so: "sorted_r arrival l st = (psr, st1)"
    by (cases "sorted_r arrival l st")
  obtain rq st2 where nl: "new_list [] st1 = (rq, st2)" by (cases "new_list [] st1")
  note e = sorted_r_effect [OF so]
  have rq: "rq = Suc (next_list st)" and d2: "dict_at st2 = dict_at st1"
    and l2: "list_at st2 = (list_at st1)(rq := [])" and n2: "next_list st2 = Suc rq"
    using nl e(3) by (auto simp: new_list_def)
  have ne: "psr \<noteq> rq" "l \<noteq> rq" using rq e(1) l by simp_all
  have u2: "unchanged st st2"
    using unchanged_trans [OF e(6) unchanged_new_list [of st1 "[]"]] nl by simp
  have ps: "sort_key arrival (load st l) = load st2 psr"
    using e(5) ne by (simp add: load_def d2 l2)
  have n: "length (load st l) = length (list_at st2 l)"
    using ne l e(1) by (simp add: load_def l2 e(4))
  have s: "sjf_init = sjf_deref st2 rq sjf_init_r"
    by (simp add: sjf_init_def sjf_deref_def sjf_init_r_def load_def l2)
  from sjf_loop_r_refines_aux [OF ne run [unfolded sjf_non_preemptive_schedule_def]] ps n s
  obtain st' where r: "sjf_loop_r l psr rq sjf_init_r st2 = Some (y, st')"
    and w: "writes_only rq st2 st'" by blast
  have "unchanged st st'"
    by (rule unchanged_writes_only [OF w _ u2]) (simp add: rq)
  then show ?thesis
    by (simp add: sjf_non_preemptive_schedule_r_def so nl r)
qed

subsection \<open>SRTF\<close>

lemma py_min_key_map:
  "g (py_min_key (\<lambda>x. f (g x)) a as) = py_min_key f (g a) (map g as)"
  by (induction as arbitrary: a) simp_all

lemma init_remaining_r_eq: "init_remaining_r st l = init_remaining (load st l)"
  by (simp add: init_remaining_r_def init_remaining_def load_def fold_map comp_def)

lemma srtf_step_r_effect:
  "fst (srtf_step_r psr s st) = srtf_step (load st psr) s \<and>
   unchanged st (snd (srtf_step_r psr s st))"
proof -
  let ?F = "filter (\<lambda>p. arrival (dict_at st p) \<le> srtf_time s \<and>
                         pid (dict_at st p) \<notin> srtf_completed s) (list_at st psr)"
  obtain av st1 where nl: "new_list ?F st = (av, st1)" by (cases "new_list ?F st")
  have d1: "dict_at st1 = dict_at st" and l1: "list_at st1 av = ?F"
    using nl by (auto simp: new_list_def)
  have u: "unchanged st st1" using unchanged_new_list [of st ?F] nl by simp
  have a: "srtf_available (load st psr) s = map (dict_at st) ?F"
    by (simp add: srtf_available_def load_def filter_map comp_def)
  show ?thesis
  proof (cases ?F)
    case Nil
    then show ?thesis
      using u a l1 by (simp add: srtf_step_r_def srtf_step_def nl [unfolded Nil])
  next
    case (Cons b bs)
    then show ?thesis
      using u a l1
        py_min_key_map [of "dict_at st" "\<lambda>x. the (srtf_remaining s (pid x))" b bs]
      by (simp add: srtf_step_r_def srtf_step_def nl [unfolded Cons] d1)
  qed
qed

lemma srtf_loop_r_refines_aux:
  assumes run: "srtf_loop ps n s = Some y"
  shows "\<forall>st. ps = load st psr \<and> psr < next_list st \<longrightarrow>
           (\<exists>st'. srtf_loop_r psr n s st = Some (y, st') \<and> unchanged st st')"
proof (rule srtf_loop.raw_induct [OF _ run], intro allI impI, elim conjE)
  fix loop ps n s y st
  assume IH: "\<And>ps n s y. loop ps n s = Some y \<Longrightarrow>
      \<forall>st. ps = load st psr \<and> psr < next_list st \<longrightarrow>
           (\<exists>st'. srtf_loop_r psr n s st = Some (y, st') \<and> unchanged st st')"
    and unf: "(if card (srtf_completed s) < n then loop ps n (srtf_step ps s)
               else Some (srtf_timeline s)) = Some y"
    and ps: "ps = load st psr" and lt: "psr < next_list st"
  obtain s1 st1 where b: "srtf_step_r psr s st = (s1, st1)" by (cases "srtf_step_r psr s st")
  from srtf_step_r_effect [of psr s st] b
  have s1: "s1 = srtf_step ps s" and u: "unchanged st st1" by (simp_all add: ps)
  show "\<exists>st'. srtf_loop_r psr n s st = Some (y, st') \<and> unchanged st st'"
  proof (cases "card (srtf_completed s) < n")
    case False
    then show ?thesis
      using unf by (subst srtf_loop_r.simps) (auto simp: unchanged_refl)
  next
    case True
    have run1: "loop ps n s1 = Some y" using unf True s1 by simp
    have ps1: "ps = load st1 psr" using unchanged_load [OF u lt] ps by simp
    have lt1: "psr < next_list st1" using u lt by (simp add: unchanged_def)
    from IH [OF run1] ps1 lt1
    obtain st' where r: "srtf_loop_r psr n s1 st1 = Some (y, st')"
      and u': "unchanged st1 st'" by blast
    show ?thesis
      using True b r unchanged_trans [OF u u'] by (subst srtf_loop_r.simps) simp
  qed
qed

lemma srtf_schedule_r_refines:
  assumes run: "sjf_preemptive_schedule (load st l) = Some y"
  shows "\<exists>st'. sjf_preemptive_schedule_r l st = Some (y, st') \<and> unchanged st st'"
proof -
  obtain psr st1 where so: "sorted_r arrival l st = (psr, st1)"
    by (cases "sorted_r arrival l st")
  note e = sorted_r_effect [OF so]
  have lt: "psr < next_list st1" using e(1,3) by simp
  from srtf_loop_r_refines_aux [OF run [unfolded sjf_preemptive_schedule_def], of psr] e(5) lt
  obtain st' where r: "srtf_loop_r psr (length (load st l)) (srtf_init (load st l)) st1 =
      Some (y, st')" and u: "unchanged st1 st'" by metis
  show ?thesis
    using r unchanged_trans [OF e(6) u]
    by (simp add: sjf_preemptive_schedule_r_def so init_remaining_r_eq srtf_init_def load_def)
qed

subsection \<open>Round-Robin\<close>

lemma list_append_effect:
  "dict_at (list_append l x st) = dict_at st"
  "load (list_append l x st) l = load st l @ [dict_at st x]"
  "k \<noteq> l \<Longrightarrow> list_at (list_append l x st) k = list_at st k"
  by (simp_all add: list_append_def load_def)

lemma admit_arrived_r_effect:
  "psr \<noteq> rq \<Longrightarrow> n = length (list_at st psr) \<Longrightarrow>
   fst (admit_arrived_r psr rq n t i st) = fst (admit_arrived (load st psr) t i (load st rq)) \<and>
   load (snd (admit_arrived_r psr rq n t i st)) rq =
     snd (admit_arrived (load st psr) t i (load st rq)) \<and>
   writes_only rq st (snd (admit_arrived_r psr rq n t i st))"
proof (induction psr rq n t i st rule: admit_arrived_r.induct)
  case (1 psr rq n t i st)
  show ?case
  proof (cases "i < n \<and> arrival (dict_at st (list_at st psr ! i)) \<le> t")
    case False
    then show ?thesis
      using 1(3)
      by (subst admit_arrived_r.simps, subst admit_arrived.simps,
          subst (2) admit_arrived_r.simps, subst (2) admit_arrived.simps,
          subst (3) admit_arrived_r.simps)
        (auto simp: load_def writes_only_refl)
  next
    case True
    let ?x = "list_at st psr ! i"
    let ?st1 = "list_append rq ?x st"
    have p1: "load ?st1 psr = load st psr" and n1: "n = length (list_at ?st1 psr)"
      using 1(2,3) by (simp_all add: load_def list_append_def)
    have q1: "load ?st1 rq = load st rq @ [load st psr ! i]"
      using True 1(3) by (simp add: list_append_def load_def)
    note IH = 1(1) [OF True 1(2) n1, unfolded p1 q1]
    have c: "i < length (load st psr) \<and> arrival (load st psr ! i) \<le> t"
      using True 1(3) by (simp add: load_def)
    show ?thesis
      using IH True c writes_only_trans [OF writes_only_append [of rq st ?x]]
      by (subst admit_arrived_r.simps, subst admit_arrived.simps,
          subst (2) admit_arrived_r.simps, subst (2) admit_arrived.simps,
          subst (3) admit_arrived_r.simps) simp
  qed
qed

lemma rr_step_r_effect:
  assumes ne: "psr \<noteq> rq" and n: "n = length (list_at st psr)"
    and c: "list_at st rq \<noteq> [] \<or> rr_i_r sr < n"
  shows "rr_deref (snd (rr_step_r psr rq n q sr st)) rq (fst (rr_step_r psr rq n q sr st)) =
           rr_step (load st psr) q (rr_deref st rq sr) \<and>
         writes_only rq st (snd (rr_step_r psr rq n q sr st))"
proof (cases "list_at st rq = []")
  case True
  then have i: "rr_i_r sr < length (list_at st psr)" using c n by simp
  let ?t = "arrival (dict_at st (list_at st psr ! rr_i_r sr))"
  have t: "arrival (load st psr ! rr_i_r sr) = ?t" using i by (simp add: load_def)
  have q0: "load st rq = []" using True by (simp add: load_def)
  obtain i1 st1 where a: "admit_arrived_r psr rq n ?t (rr_i_r sr) st = (i1, st1)"
    by (cases "admit_arrived_r psr rq n ?t (rr_i_r sr) st")
  from admit_arrived_r_effect [OF ne n, of ?t "rr_i_r sr"] a
  have v: "admit_arrived (load st psr) ?t (rr_i_r sr) [] = (i1, load st1 rq)"
    and w: "writes_only rq st st1"
    by (simp_all add: q0 prod_eq_iff)
  show ?thesis
    using True w
    by (simp add: rr_step_r_def rr_step_def rr_idle_step_def rr_deref_def q0 t a v Let_def)
next
  case False
  define pr where "pr = fst (list_pop0 rq st)"
  define st1 where "st1 = snd (list_pop0 rq st)"
  have pop: "list_pop0 rq st = (pr, st1)" by (simp add: pr_def st1_def)
  note pe = list_pop0_effect [OF False, folded pr_def st1_def]
  have w1: "writes_only rq st st1" unfolding st1_def by (rule writes_only_pop0)
  have p1: "load st1 psr = load st psr" and n1: "n = length (list_at st1 psr)"
    using w1 ne n by (simp_all add: writes_only_def load_def)
  have qne: "load st rq \<noteq> []" using False by (simp add: load_def)
  define k where "k = pid (hd (load st rq))"
  define e where "e = rr_current_time_r sr + min q (the (rr_remaining_r sr k))"
  obtain i1 st2 where a: "admit_arrived_r psr rq n e (rr_i_r sr) st1 = (i1, st2)"
    by (cases "admit_arrived_r psr rq n e (rr_i_r sr) st1")
  from admit_arrived_r_effect [OF ne n1, of e "rr_i_r sr"] a
  have v: "admit_arrived (load st psr) e (rr_i_r sr) (tl (load st rq)) = (i1, load st2 rq)"
    and w2: "writes_only rq st1 st2"
    by (simp_all add: p1 pe(2) prod_eq_iff)
  have d2: "dict_at st2 = dict_at st" using w1 w2 by (simp add: writes_only_def)
  have l3: "load (list_append rq pr st2) rq = load st2 rq @ [hd (load st rq)]"
    by (simp add: list_append_effect d2 pe(3))
  have w3: "writes_only rq st (list_append rq pr st2)" and w2': "writes_only rq st st2"
    using writes_only_trans [OF w1 writes_only_trans [OF w2 writes_only_append]]
      writes_only_trans [OF w1 w2] by simp_all
  have kk: "pid (dict_at st1 pr) = k" by (simp add: k_def pe(1,3))
  show ?thesis
    using False qne w3 w2'
    by (simp add: rr_step_r_def rr_step_def rr_dispatch_step_def rr_deref_def pop kk
        k_def [symmetric] e_def [symmetric] a v l3 Let_def)
qed

lemma rr_loop_r_refines_aux:
  assumes ne: "psr \<noteq> rq" and run: "rr_loop ps q s = Some y"
  shows "\<forall>st sr. ps = load st psr \<and> n = length (list_at st psr) \<and> s = rr_deref st rq sr \<longrightarrow>
           (\<exists>st'. rr_loop_r psr rq n q sr st = Some (y, st') \<and> writes_only rq st st')"
proof (rule rr_loop.raw_induct [OF _ run], intro allI impI, elim conjE)
  fix loop ps q s y st sr
  assume IH: "\<And>ps q s y. loop ps q s = Some y \<Longrightarrow>
      \<forall>st sr. ps = load st psr \<and> n = length (list_at st psr) \<and> s = rr_deref st rq sr \<longrightarrow>
           (\<exists>st'. rr_loop_r psr rq n q sr st = Some (y, st') \<and> writes_only rq st st')"
    and unf: "(if rr_ready_queue s \<noteq> [] \<or> rr_i s < length ps
               then loop ps q (rr_step ps q s) else Some (rr_timeline s)) = Some y"
    and ps: "ps = load st psr" and n: "n = length (list_at st psr)"
    and s: "s = rr_deref st rq sr"
  have c: "(rr_ready_queue s \<noteq> [] \<or> rr_i s < length ps) \<longleftrightarrow>
           (list_at st rq \<noteq> [] \<or> rr_i_r sr < n)"
    and t: "rr_timeline s = rr_timeline_r sr"
    by (simp_all add: s ps n rr_deref_def load_def)
  show "\<exists>st'. rr_loop_r psr rq n q sr st = Some (y, st') \<and> writes_only rq st st'"
  proof (cases "list_at st rq \<noteq> [] \<or> rr_i_r sr < n")
    case False
    then show ?thesis
      using unf c t by (subst rr_loop_r.simps) (auto simp: writes_only_refl)
  next
    case True
    obtain s1 st1 where b: "rr_step_r psr rq n q sr st = (s1, st1)"
      by (cases "rr_step_r psr rq n q sr st")
    from rr_step_r_effect [OF ne n True, of q] b
    have v: "rr_deref st1 rq s1 = rr_step ps q s" and w: "writes_only rq st st1"
      by (simp_all add: ps s)
    have run1: "loop ps q (rr_deref st1 rq s1) = Some y" using unf c True v by simp
    have ps1: "ps = load st1 psr" and n1: "n = length (list_at st1 psr)"
      using w ne ps n by (simp_all add: writes_only_def load_def)
    from IH [OF run1] ps1 n1
    obtain st' where r: "rr_loop_r psr rq n q s1 st1 = Some (y, st')"
      and w': "writes_only rq st1 st'" by blast
    show ?thesis
      using True b r writes_only_trans [OF w w'] by (subst rr_loop_r.simps) simp
  qed
qed

lemma rr_schedule_r_refines:
  assumes run: "round_robin_schedule (load st l) q = Some y" and l: "l < next_list st"
  shows "\<exists>st'. round_robin_schedule_r l q st = Some (y, st') \<and> unchanged st st'"
proof -
  obtain psr st1 where so: "sorted_r arrival l st = (psr, st1)"
    by (cases "sorted_r arrival l st")
  obtain rq st2 where nl: "new_list [] st1 = (rq, st2)" by (cases "new_list [] st1")
  note e = sorted_r_effect [OF so]
  have rq: "rq = Suc (next_list st)" and d2: "dict_at st2 = dict_at st1"
    and l2: "list_at st2 = (list_at st1)(rq := [])" and n2: "next_list st2 = Suc rq"
    using nl e(3) by (auto simp: new_list_def)
  have ne: "psr \<noteq> rq" "l \<noteq> rq" using rq e(1) l by simp_all
  have u2: "unchanged st st2"
    using unchanged_trans [OF e(6) unchanged_new_list [of st1 "[]"]] nl by simp
  have ps: "load st2 psr = sort_key arrival (load st l)"
    using e(5) ne by (simp add: load_def d2 l2)
  have q2: "load st2 rq = []" by (simp add: load_def l2)
  have len: "length (list_at st1 l) = length (list_at st2 psr)"
    using ne l e(1) by (simp add: l2 e(4))
  obtain i0 st3 where a: "admit_arrived_r psr rq (length (list_at st1 l)) 0 0 st2 = (i0, st3)"
    by (cases "admit_arrived_r psr rq (length (list_at st1 l)) 0 0 st2")
  from admit_arrived_r_effect [OF ne(1) len, of 0 0] a
  have v: "admit_arrived (sort_key arrival (load st l)) 0 0 [] = (i0, load st3 rq)"
    and w: "writes_only rq st2 st3"
    by (simp_all add: ps q2 prod_eq_iff)
  let ?s0 = "\<lparr>rr_timeline_r = [], rr_current_time_r = 0,
              rr_remaining_r = init_remaining_r st l, rr_i_r = i0\<rparr>"
  have s: "rr_init (load st l) = rr_deref st3 rq ?s0"
    by (simp add: rr_init_def v rr_deref_def init_remaining_r_eq)
  have ps3: "sort_key arrival (load st l) = load st3 psr"
    and len3: "length (list_at st1 l) = length (list_at st3 psr)"
    using w ne ps len by (simp_all add: writes_only_def load_def)
  from rr_loop_r_refines_aux [OF ne(1) run [unfolded round_robin_schedule_def],
      of "length (list_at st1 l)"] ps3 len3 s
  obtain st' where r: "rr_loop_r psr rq (length (list_at st1 l)) q ?s0 st3 = Some (y, st')"
    and w': "writes_only rq st3 st'" by blast
  have "unchanged st st'"
    by (rule unchanged_writes_only [OF writes_only_trans [OF w w'] _ u2]) (simp add: rq)
  then show ?thesis
    by (simp add: round_robin_schedule_r_def so nl a r)
qed

subsection \<open>Calls and their frame\<close>

lemma leaves_input_unchangedI:
  assumes r: "\<And>st y. f (load st l) = Some y \<Longrightarrow> l < next_list st \<Longrightarrow>
                 \<exists>st'. f_r l st = Some (y, st') \<and> unchanged st st'"
    and v: "f (load st l) = Some y" and l: "l < next_list st"
  shows "leaves_input_unchanged f_r f l st"
proof -
  from r [OF v l] obtain st1 where c1: "f_r l st = Some (y, st1)" and u: "unchanged st st1"
    by blast
  have ld: "load st1 l = load st l" by (rule unchanged_load [OF u l])
  have l1: "l < next_list st1" using u l by (simp add: unchanged_def)
  from r [of st1 y] v ld l1 obtain st2 where c2: "f_r l st1 = Some (y, st2)" by auto
  show ?thesis
    unfolding leaves_input_unchanged_def
    using c1 c2 v u l by (auto simp: unchanged_def)
qed

section \<open>Results\<close>

text \<open>
  C7: FCFS on the five processes of question1.py returns exactly
  P1[0,5), P2[5,6), Idle[6,10), P3[10,21), P4[21,23), P5[23,35), in this order.
\<close>

theorem fcfs_example_timeline:
  "fcfs_schedule q1_processes =
     [mk_seg ''P1'' 0 5, mk_seg ''P2'' 5 6, mk_seg ''Idle'' 6 10,
      mk_seg ''P3'' 10 21, mk_seg ''P4'' 21 23, mk_seg ''P5'' 23 35]"
  by (simp add: fcfs_schedule_def q1_processes_def mk_proc_def mk_seg_def Idle_def)

text \<open>
  C1 (the code departs from the claim): on the script's own data the multi-processor
  Round-Robin emits for P1, whose burst is 5, the segments [0,3), [2,5) and [4,6)
  on processor 1, of total duration 8.
\<close>

theorem multi_rr_duration_exceeds_burst:
  "\<exists>evs. multi_rr_schedule q6_processes 2 2 = Some (Inr evs)
     \<and> seg_total ''P1'' (on_processor 1 evs @ on_processor 2 evs) = 8
     \<and> map burst (filter (\<lambda>p. pid p = ''P1'') q6_processes) = [5]"
proof -
  have "seg_total ''P1'' (on_processor 1 q6_events @ on_processor 2 q6_events) = 8"
    by code_simp
  moreover have "map burst (filter (\<lambda>p. pid p = ''P1'') q6_processes) = [5]"
    by code_simp
  ultimately show ?thesis
    using q6_run by (intro exI [of _ q6_events] conjI)
qed

text \<open>
  C2 (the code departs from the claim): on the script's own data the segments of
  processor 1 are not a gapless, non-overlapping cover: the first two, P1[0,3) and
  P1[2,5), overlap.
\<close>

theorem multi_rr_segments_overlap:
  "\<exists>evs. multi_rr_schedule q6_processes 2 2 = Some (Inr evs)
     \<and> take 2 (on_processor 1 evs) = [mk_seg ''P1'' 0 3, mk_seg ''P1'' 2 5]
     \<and> \<not> gapless_from 0 (on_processor 1 evs)"
proof -
  have "take 2 (on_processor 1 q6_events) = [mk_seg ''P1'' 0 3, mk_seg ''P1'' 2 5]"
    by code_simp
  moreover have "\<not> gapless_from 0 (on_processor 1 q6_events)"
    by code_simp
  ultimately show ?thesis
    using q6_run by (intro exI [of _ q6_events] conjI)
qed

text \<open>
  C6, as stated, fails: at the state the script reaches at time 5, one iteration of
  its loop differs from the time unit that updates every processor before any
  dispatch. In the script processor 1 finds the queue empty before processor 2
  re-queues P2, so P2 stays on processor 2; with all updates first it would move
  to processor 1.
\<close>

theorem time_unit_not_two_phase:
  "run_units 5 2 2 (init_state q6_processes 2) = Inr q6_state_at_5
   \<and> running (time_unit 2 2 q6_state_at_5) = Inr [None, Some ''P2'']
   \<and> running (two_phase_unit 2 2 q6_state_at_5) = Inr [Some ''P2'', None]
   \<and> time_unit 2 2 q6_state_at_5 \<noteq> two_phase_unit 2 2 q6_state_at_5"
proof -
  have a: "running (time_unit 2 2 q6_state_at_5) = Inr [None, Some ''P2'']"
    by code_simp
  have b: "running (two_phase_unit 2 2 q6_state_at_5) = Inr [Some ''P2'', None]"
    by code_simp
  from a b have "time_unit 2 2 q6_state_at_5 \<noteq> two_phase_unit 2 2 q6_state_at_5"
    by auto
  with a b q6_reaches_state_at_5 show ?thesis
    by simp
qed

text \<open>
  C8, as stated, fails: Round-Robin with quantum 2 on the data of question4.py
  emits P1[0,2) and P1[2,4) as two adjacent segments.
\<close>

theorem rr_not_coalesced:
  "map_option (take 2) (round_robin_schedule q2_processes 2)
     = Some [mk_seg ''P1'' 0 2, mk_seg ''P1'' 2 4]
   \<and> map_option coalesced (round_robin_schedule q2_processes 2) = Some False"
  by code_simp

text \<open>
  C9, as stated, fails: for a process with negative arrival and zero burst the
  SJF and FCFS schedulers return a timeline, not an error.
\<close>

theorem invalid_input_not_rejected:
  "sjf_non_preemptive_schedule [mk_proc ''P1'' (- 1) 0] = Some (Inr [mk_seg ''P1'' 0 0])
   \<and> fcfs_schedule [mk_proc ''P1'' (- 1) 0] = [mk_seg ''P1'' 0 0]"
  by code_simp

text \<open>
  C3: for every valid input the SRTF scheduler returns a timeline that is gapless
  from 0 and in which, at every unit of time, the owner is Idle when no process is
  eligible and otherwise an eligible (arrived, incomplete) process whose remaining
  time is least among the eligible ones. Hence a process does not own a unit at
  which another eligible process has a strictly smaller remaining time (it is
  preempted at that instant). The segments of each process sum to its burst, and
  when a process has two or more segments each of them is shorter than its burst.
\<close>

theorem srtf_runs_shortest_remaining:
  assumes valid: "valid_input ps"
  shows "\<exists>tml. sjf_preemptive_schedule ps = Some tml \<and>
           gapless_from 0 tml \<and>
           srtf_policy ps (unit_owners tml) \<and>
           (\<forall>t<length (unit_owners tml). \<forall>p\<in>set ps. \<forall>q\<in>set ps.
              eligible_at (unit_owners tml) t q \<and>
              rem_at (unit_owners tml) t q < rem_at (unit_owners tml) t p
              \<longrightarrow> unit_owners tml ! t \<noteq> pid p) \<and>
           (\<forall>p\<in>set ps. seg_total (pid p) tml = burst p) \<and>
           (\<forall>p\<in>set ps. \<forall>i<length tml. \<forall>j<length tml.
              i \<noteq> j \<and> seg_id (tml ! i) = pid p \<and> seg_id (tml ! j) = pid p
              \<longrightarrow> seg_end (tml ! i) - seg_start (tml ! i) < burst p)"
proof -
  from srtf_total_correctness [OF valid] obtain tml where run: "sjf_preemptive_schedule ps = Some tml"
    and gap: "gapless_from 0 tml" and pol: "srtf_policy ps (unit_owners tml)"
    and tot: "\<forall>p\<in>set ps. seg_total (pid p) tml = burst p"
    by blast
  from valid have dist: "distinct (map pid ps)" and nidle: "\<forall>p\<in>set ps. pid p \<noteq> Idle"
    by (auto simp: valid_input_def)
  have pre: "\<forall>t<length (unit_owners tml). \<forall>p\<in>set ps. \<forall>q\<in>set ps.
              eligible_at (unit_owners tml) t q \<and>
              rem_at (unit_owners tml) t q < rem_at (unit_owners tml) t p
              \<longrightarrow> unit_owners tml ! t \<noteq> pid p"
  proof (intro allI ballI impI)
    fix t p q
    assume "t < length (unit_owners tml)" "p \<in> set ps" "q \<in> set ps"
      "eligible_at (unit_owners tml) t q \<and>
       rem_at (unit_owners tml) t q < rem_at (unit_owners tml) t p"
    then show "unit_owners tml ! t \<noteq> pid p"
      by (intro srtf_policy_preempts [OF dist pol, of t p q]) simp_all
  qed
  have short: "\<forall>p\<in>set ps. \<forall>i<length tml. \<forall>j<length tml.
              i \<noteq> j \<and> seg_id (tml ! i) = pid p \<and> seg_id (tml ! j) = pid p
              \<longrightarrow> seg_end (tml ! i) - seg_start (tml ! i) < burst p"
  proof (intro ballI allI impI)
    fix p i j
    assume p: "p \<in> set ps" and "i < length tml" "j < length tml"
      and "i \<noteq> j \<and> seg_id (tml ! i) = pid p \<and> seg_id (tml ! j) = pid p"
    then have "seg_end (tml ! i) - seg_start (tml ! i) < seg_total (pid p) tml"
      using nidle by (intro split_segment_shorter [OF gap, of i j]) auto
    with tot p show "seg_end (tml ! i) - seg_start (tml ! i) < burst p" by simp
  qed
  from run gap pol pre tot short show ?thesis by (intro exI [of _ tml] conjI)
qed

theorem srtf_runs_shortest_remaining_witness:
  "valid_input srtf_example \<and>
   sjf_preemptive_schedule srtf_example =
     Some [mk_seg ''P1'' 0 1, mk_seg ''P2'' 1 2, mk_seg ''P1'' 2 4] \<and>
   (\<exists>tml. sjf_preemptive_schedule srtf_example = Some tml \<and>
           gapless_from 0 tml \<and>
           srtf_policy srtf_example (unit_owners tml) \<and>
           (\<forall>p\<in>set srtf_example. seg_total (pid p) tml = burst p))"
proof -
  have valid: "valid_input srtf_example"
    by (simp add: valid_input_def srtf_example_def mk_proc_def Idle_def)
  have run: "sjf_preemptive_schedule srtf_example =
     Some [mk_seg ''P1'' 0 1, mk_seg ''P2'' 1 2, mk_seg ''P1'' 2 4]"
    by code_simp
  from srtf_runs_shortest_remaining [OF valid] obtain tml where
    "sjf_preemptive_schedule srtf_example = Some tml" "gapless_from 0 tml"
    "srtf_policy srtf_example (unit_owners tml)"
    "\<forall>p\<in>set srtf_example. seg_total (pid p) tml = burst p"
    by auto
  then have "\<exists>tml. sjf_preemptive_schedule srtf_example = Some tml \<and>
           gapless_from 0 tml \<and>
           srtf_policy srtf_example (unit_owners tml) \<and>
           (\<forall>p\<in>set srtf_example. seg_total (pid p) tml = burst p)"
    by (intro exI [of _ tml] conjI)
  with valid run show ?thesis
    by (intro conjI)
qed

text \<open>
  C4: for every valid input the non-preemptive SJF scheduler returns a gapless
  timeline in which every segment that is not Idle belongs to a process that had
  arrived when the segment starts, lasts exactly the burst of that process, and
  whose process is preferred (smaller burst, then earlier arrival, then earlier
  place in the input) to every process that had arrived by then and had not run
  before; each process owns exactly one segment.
\<close>

theorem sjf_picks_shortest_burst:
  assumes "valid_input ps"
  shows "\<exists>tml. sjf_non_preemptive_schedule ps = Some (Inr tml) \<and>
           gapless_from 0 tml \<and> sjf_policy ps tml \<and>
           mset (owners tml) = mset (map pid ps)"
  using sjf_total_correctness [OF assms] by blast

theorem sjf_picks_shortest_burst_witness:
  "valid_input sjf_example \<and>
   sjf_non_preemptive_schedule sjf_example =
     Some (Inr [mk_seg ''B'' 0 4, mk_seg ''C'' 4 6, mk_seg ''D'' 6 8, mk_seg ''A'' 8 10,
                mk_seg ''Idle'' 10 20, mk_seg ''E'' 20 22]) \<and>
   (\<exists>tml. sjf_non_preemptive_schedule sjf_example = Some (Inr tml) \<and>
           gapless_from 0 tml \<and> sjf_policy sjf_example tml \<and>
           mset (owners tml) = mset (map pid sjf_example))"
proof -
  have valid: "valid_input sjf_example"
    by (simp add: valid_input_def sjf_example_def mk_proc_def Idle_def)
  have run: "sjf_non_preemptive_schedule sjf_example =
     Some (Inr [mk_seg ''B'' 0 4, mk_seg ''C'' 4 6, mk_seg ''D'' 6 8, mk_seg ''A'' 8 10,
                mk_seg ''Idle'' 10 20, mk_seg ''E'' 20 22])"
    by code_simp
  from valid run sjf_picks_shortest_burst [OF valid] show ?thesis
    by (intro conjI)
qed

text \<open>
  C5: take the single-processor Round-Robin on valid input with a positive
  quantum, and any state \<open>s\<close> that its loop reaches at the head of an iteration.
  The run goes on from \<open>s\<close> to the timeline that the scheduler returns, and the
  timeline built so far is a prefix of it. The queue starts as the processes
  that have arrived by time 0, in arrival order, and at \<open>s\<close> it holds, once each,
  exactly the processes that have arrived by \<^verbatim>\<open>current_time\<close> and are not
  finished. A dispatch of the head \<open>pr\<close> runs it for \<open>min quantum remaining\<close>
  units, a positive number, from \<^verbatim>\<open>current_time\<close>; the queue is then the rest of
  the old queue, followed by the processes that arrived during the slice in
  arrival order, followed by \<open>pr\<close> when it is not finished. With an empty queue
  and processes still to come the loop emits an Idle segment up to the next
  arrival and queues the processes that arrive then.
\<close>

theorem rr_admits_before_requeue:
  assumes valid: "valid_input ps" and q: "0 < q" and sps: "sps = sort_key arrival ps"
    and run: "rr_iterate k sps q (rr_init ps) = Some s"
  shows "rr_ready_queue (rr_init ps) = filter (\<lambda>p. arrival p \<le> 0) sps \<and>
         (\<exists>tml. round_robin_schedule ps q = Some tml \<and> rr_loop sps q s = Some tml \<and>
                take (length (rr_timeline s)) tml = rr_timeline s) \<and>
         distinct (rr_ready_queue s) \<and>
         set (rr_ready_queue s) =
           {p \<in> set ps. arrival p \<le> rr_current_time s \<and> 0 < the (rr_remaining s (pid p))} \<and>
         (\<forall>pr rest. rr_ready_queue s = pr # rest \<longrightarrow>
            (let t = rr_current_time s;
                 r = the (rr_remaining s (pid pr));
                 e = min q r;
                 s' = rr_step sps q s
             in r = burst pr - seg_total (pid pr) (rr_timeline s) \<and> 0 < e \<and>
                rr_iterate (Suc k) sps q (rr_init ps) = Some s' \<and>
                rr_timeline s' = rr_timeline s @ [mk_seg (pid pr) t (t + e)] \<and>
                rr_current_time s' = t + e \<and>
                rr_remaining s' = (rr_remaining s)(pid pr \<mapsto> r - e) \<and>
                rr_ready_queue s' =
                  rest @ filter (\<lambda>p. t < arrival p \<and> arrival p \<le> t + e) sps @
                  (if e < r then [pr] else []))) \<and>
         (rr_ready_queue s = [] \<and> (\<exists>p\<in>set ps. rr_current_time s < arrival p) \<longrightarrow>
            (let t = rr_current_time s;
                 s' = rr_step sps q s;
                 next_arrival = rr_current_time s'
             in t < next_arrival \<and>
                (\<forall>p\<in>set ps. t < arrival p \<longrightarrow> next_arrival \<le> arrival p) \<and>
                rr_iterate (Suc k) sps q (rr_init ps) = Some s' \<and>
                rr_timeline s' = rr_timeline s @ [mk_seg Idle t next_arrival] \<and>
                rr_remaining s' = rr_remaining s \<and>
                rr_ready_queue s' = filter (\<lambda>p. arrival p = next_arrival) sps \<and>
                rr_ready_queue s' \<noteq> []))"
proof -
  note f = sorted_input_facts [OF valid sps]
  have inv0: "rr_inv ps sps (rr_init ps)" by (rule rr_init_inv [OF valid sps])
  have arr0: "rr_arrived sps (rr_init ps)" unfolding sps by (rule rr_init_arrived)
  from rr_iterate_inv [OF valid sps q inv0 arr0 run]
  have inv: "rr_inv ps sps s" and arr: "rr_arrived sps s"
    and l: "rr_loop sps q (rr_init ps) = rr_loop sps q s" by simp_all
  from rr_total_correctness [OF valid q] obtain tml where
    tml: "round_robin_schedule ps q = Some tml" by blast
  then have ls: "rr_loop sps q s = Some tml"
    using l by (simp add: round_robin_schedule_def sps)
  have a: "rr_ready_queue (rr_init ps) = filter (\<lambda>p. arrival p \<le> 0) sps"
    unfolding sps by (rule rr_init_queue)
  have b: "\<exists>tml. round_robin_schedule ps q = Some tml \<and> rr_loop sps q s = Some tml \<and>
                take (length (rr_timeline s)) tml = rr_timeline s"
    using tml ls rr_loop_prefix [OF ls] by simp
  note c = rr_queue_admitted [OF valid sps inv arr]
  have d: "\<forall>pr rest. rr_ready_queue s = pr # rest \<longrightarrow>
            (let t = rr_current_time s;
                 r = the (rr_remaining s (pid pr));
                 e = min q r;
                 s' = rr_step sps q s
             in r = burst pr - seg_total (pid pr) (rr_timeline s) \<and> 0 < e \<and>
                rr_iterate (Suc k) sps q (rr_init ps) = Some s' \<and>
                rr_timeline s' = rr_timeline s @ [mk_seg (pid pr) t (t + e)] \<and>
                rr_current_time s' = t + e \<and>
                rr_remaining s' = (rr_remaining s)(pid pr \<mapsto> r - e) \<and>
                rr_ready_queue s' =
                  rest @ filter (\<lambda>p. t < arrival p \<and> arrival p \<le> t + e) sps @
                  (if e < r then [pr] else []))"
  proof (intro allI impI)
    fix pr rest assume rq: "rr_ready_queue s = pr # rest"
    note h = rr_queue_head_remaining [OF valid sps inv rq]
    have e: "0 < min q (the (rr_remaining s (pid pr)))" using h(3) q by simp
    have n: "rr_iterate (Suc k) sps q (rr_init ps) = Some (rr_step sps q s)"
      by (rule rr_iterate_Suc [OF run]) (simp add: rq)
    from rr_dispatch_effect [OF f(3) rq, of q]
    have eff: "rr_timeline (rr_step sps q s) = rr_timeline s @
          [mk_seg (pid pr) (rr_current_time s)
             (rr_current_time s + min q (the (rr_remaining s (pid pr))))]"
      "rr_current_time (rr_step sps q s) =
         rr_current_time s + min q (the (rr_remaining s (pid pr)))"
      "rr_remaining (rr_step sps q s) = (rr_remaining s)(pid pr \<mapsto>
         the (rr_remaining s (pid pr)) - min q (the (rr_remaining s (pid pr))))"
      by (simp_all add: Let_def)
    show "let t = rr_current_time s;
              r = the (rr_remaining s (pid pr));
              e = min q r;
              s' = rr_step sps q s
          in r = burst pr - seg_total (pid pr) (rr_timeline s) \<and> 0 < e \<and>
             rr_iterate (Suc k) sps q (rr_init ps) = Some s' \<and>
             rr_timeline s' = rr_timeline s @ [mk_seg (pid pr) t (t + e)] \<and>
             rr_current_time s' = t + e \<and>
             rr_remaining s' = (rr_remaining s)(pid pr \<mapsto> r - e) \<and>
             rr_ready_queue s' =
               rest @ filter (\<lambda>p. t < arrival p \<and> arrival p \<le> t + e) sps @
               (if e < r then [pr] else [])"
      unfolding Let_def
      by (intro conjI h(2) e n eff rr_dispatch_arrivals [OF valid sps inv arr rq])
  qed
  have g: "rr_ready_queue s = [] \<and> (\<exists>p\<in>set ps. rr_current_time s < arrival p) \<longrightarrow>
            (let t = rr_current_time s;
                 s' = rr_step sps q s;
                 next_arrival = rr_current_time s'
             in t < next_arrival \<and>
                (\<forall>p\<in>set ps. t < arrival p \<longrightarrow> next_arrival \<le> arrival p) \<and>
                rr_iterate (Suc k) sps q (rr_init ps) = Some s' \<and>
                rr_timeline s' = rr_timeline s @ [mk_seg Idle t next_arrival] \<and>
                rr_remaining s' = rr_remaining s \<and>
                rr_ready_queue s' = filter (\<lambda>p. arrival p = next_arrival) sps \<and>
                rr_ready_queue s' \<noteq> [])"
  proof (intro impI, elim conjE)
    assume rq: "rr_ready_queue s = []" and ex: "\<exists>p\<in>set ps. rr_current_time s < arrival p"
    from ex have i: "rr_i s < length sps"
      by (simp add: rr_pending_iff [OF valid sps inv arr])
    have n: "rr_iterate (Suc k) sps q (rr_init ps) = Some (rr_step sps q s)"
      by (rule rr_iterate_Suc [OF run]) (simp add: i)
    show "let t = rr_current_time s;
              s' = rr_step sps q s;
              next_arrival = rr_current_time s'
          in t < next_arrival \<and>
             (\<forall>p\<in>set ps. t < arrival p \<longrightarrow> next_arrival \<le> arrival p) \<and>
             rr_iterate (Suc k) sps q (rr_init ps) = Some s' \<and>
             rr_timeline s' = rr_timeline s @ [mk_seg Idle t next_arrival] \<and>
             rr_remaining s' = rr_remaining s \<and>
             rr_ready_queue s' = filter (\<lambda>p. arrival p = next_arrival) sps \<and>
             rr_ready_queue s' \<noteq> []"
      unfolding Let_def
      by (intro conjI n rr_idle_effect [OF valid sps inv arr rq i])
  qed
  from a b c d g show ?thesis by (intro conjI)
qed

theorem rr_admits_before_requeue_witness:
  "valid_input rr_example \<and> (0::int) < 2 \<and>
   rr_iterate 1 (sort_key arrival rr_example) 2 (rr_init rr_example) = Some (rr_example_at 1) \<and>
   rr_current_time (rr_example_at 1) = 2 \<and>
   rr_ready_queue (rr_example_at 1) = [mk_proc ''P1'' 0 5] \<and>
   the (rr_remaining (rr_example_at 1) ''P1'') = 3 \<and>
   rr_iterate 2 (sort_key arrival rr_example) 2 (rr_init rr_example)
     = Some (rr_step (sort_key arrival rr_example) 2 (rr_example_at 1)) \<and>
   rr_timeline (rr_step (sort_key arrival rr_example) 2 (rr_example_at 1))
     = rr_timeline (rr_example_at 1) @ [mk_seg ''P1'' 2 4] \<and>
   rr_ready_queue (rr_step (sort_key arrival rr_example) 2 (rr_example_at 1))
     = [mk_proc ''P2'' 3 1, mk_proc ''P1'' 0 5] \<and>
   rr_iterate 4 (sort_key arrival rr_example) 2 (rr_init rr_example) = Some (rr_example_at 4) \<and>
   rr_current_time (rr_example_at 4) = 6 \<and>
   rr_ready_queue (rr_example_at 4) = [] \<and>
   rr_current_time (rr_step (sort_key arrival rr_example) 2 (rr_example_at 4)) = 10 \<and>
   rr_timeline (rr_step (sort_key arrival rr_example) 2 (rr_example_at 4))
     = rr_timeline (rr_example_at 4) @ [mk_seg Idle 6 10] \<and>
   rr_ready_queue (rr_step (sort_key arrival rr_example) 2 (rr_example_at 4))
     = [mk_proc ''P3'' 10 11] \<and>
   (\<exists>tml. round_robin_schedule rr_example 2 = Some tml \<and>
      take (length (rr_timeline (rr_example_at 4))) tml = rr_timeline (rr_example_at 4))"
proof -
  let ?sps = "sort_key arrival rr_example"
  let ?P1 = "mk_proc ''P1'' 0 5"
  have v: "valid_input rr_example"
    by (simp add: valid_input_def rr_example_def mk_proc_def Idle_def)
  have q: "(0::int) < 2" by simp
  have "\<not> Option.is_none (rr_iterate 1 ?sps 2 (rr_init rr_example))"
    "\<not> Option.is_none (rr_iterate 4 ?sps 2 (rr_init rr_example))"
    by code_simp+
  then have it1: "rr_iterate 1 ?sps 2 (rr_init rr_example) = Some (rr_example_at 1)"
    and it4: "rr_iterate 4 ?sps 2 (rr_init rr_example) = Some (rr_example_at 4)"
    by (auto simp: rr_example_at_def Option.is_none_def)
  have s1: "rr_current_time (rr_example_at 1) = 2"
    "rr_ready_queue (rr_example_at 1) = ?P1 # []"
    "the (rr_remaining (rr_example_at 1) ''P1'') = 3"
    "pid ?P1 = ''P1''"
    "filter (\<lambda>p. 2 < arrival p \<and> arrival p \<le> 4) ?sps = [mk_proc ''P2'' 3 1]"
    by code_simp+
  have s4: "rr_current_time (rr_example_at 4) = 6"
    "rr_ready_queue (rr_example_at 4) = []"
    "\<exists>p\<in>set rr_example. rr_current_time (rr_example_at 4) < arrival p"
    "rr_current_time (rr_step ?sps 2 (rr_example_at 4)) = 10"
    "filter (\<lambda>p. arrival p = 10) ?sps = [mk_proc ''P3'' 10 11]"
    by code_simp+
  note t1 = rr_admits_before_requeue [OF v q refl it1]
  note t4 = rr_admits_before_requeue [OF v q refl it4]
  from t1 have "\<forall>pr rest. rr_ready_queue (rr_example_at 1) = pr # rest \<longrightarrow>
      (let t = rr_current_time (rr_example_at 1);
           r = the (rr_remaining (rr_example_at 1) (pid pr));
           e = min 2 r;
           s' = rr_step ?sps 2 (rr_example_at 1)
       in r = burst pr - seg_total (pid pr) (rr_timeline (rr_example_at 1)) \<and> 0 < e \<and>
          rr_iterate (Suc 1) ?sps 2 (rr_init rr_example) = Some s' \<and>
          rr_timeline s' = rr_timeline (rr_example_at 1) @ [mk_seg (pid pr) t (t + e)] \<and>
          rr_current_time s' = t + e \<and>
          rr_remaining s' = (rr_remaining (rr_example_at 1))(pid pr \<mapsto> r - e) \<and>
          rr_ready_queue s' =
            rest @ filter (\<lambda>p. t < arrival p \<and> arrival p \<le> t + e) ?sps @
            (if e < r then [pr] else []))"
    by (elim conjE)
  from this [rule_format, OF s1(2)]
  have d: "rr_iterate 2 ?sps 2 (rr_init rr_example) = Some (rr_step ?sps 2 (rr_example_at 1))"
    "rr_timeline (rr_step ?sps 2 (rr_example_at 1))
       = rr_timeline (rr_example_at 1) @ [mk_seg ''P1'' 2 4]"
    "rr_ready_queue (rr_step ?sps 2 (rr_example_at 1)) = [mk_proc ''P2'' 3 1, ?P1]"
    by (simp_all add: Let_def s1 del: One_nat_def)
  from t4 have "rr_ready_queue (rr_example_at 4) = [] \<and>
      (\<exists>p\<in>set rr_example. rr_current_time (rr_example_at 4) < arrival p) \<longrightarrow>
      (let t = rr_current_time (rr_example_at 4);
           s' = rr_step ?sps 2 (rr_example_at 4);
           next_arrival = rr_current_time s'
       in t < next_arrival \<and>
          (\<forall>p\<in>set rr_example. t < arrival p \<longrightarrow> next_arrival \<le> arrival p) \<and>
          rr_iterate (Suc 4) ?sps 2 (rr_init rr_example) = Some s' \<and>
          rr_timeline s' = rr_timeline (rr_example_at 4) @ [mk_seg Idle t next_arrival] \<and>
          rr_remaining s' = rr_remaining (rr_example_at 4) \<and>
          rr_ready_queue s' = filter (\<lambda>p. arrival p = next_arrival) ?sps \<and>
          rr_ready_queue s' \<noteq> [])"
    by (elim conjE)
  from this [rule_format, OF conjI [OF s4(2,3)]]
  have i: "rr_timeline (rr_step ?sps 2 (rr_example_at 4))
       = rr_timeline (rr_example_at 4) @ [mk_seg Idle 6 10]"
    "rr_ready_queue (rr_step ?sps 2 (rr_example_at 4)) = [mk_proc ''P3'' 10 11]"
    by (simp_all add: Let_def s4(1,4,5))
  from t4 have e: "\<exists>tml. round_robin_schedule rr_example 2 = Some tml \<and>
      take (length (rr_timeline (rr_example_at 4))) tml = rr_timeline (rr_example_at 4)"
    by blast
  show ?thesis
    by (intro conjI v q it1 s1(1) s1(2) s1(3) d it4 s4(1) s4(2) s4(4) i e)
qed

text \<open>
  C6, as the code has it: a time unit is the body for the processors
  \<open>0, \<dots>, j - 1\<close>, then the update of processor \<open>j\<close>, then its dispatch, then
  the body for the higher processors. The update of \<open>j\<close> runs one unit of its
  process: it decrements the remaining time and the slice; when the process
  finishes it closes the segment at \<open>global_time + 1\<close>, marks the process finished
  and frees the processor; when the slice expires it closes the segment, appends
  the process to the shared queue and frees the processor. The dispatch removes
  at most the head of the queue: a free processor takes the head, with a slice of
  \<open>min quantum remaining\<close>, and a busy one leaves the queue alone. The processors
  below \<open>j\<close> end the unit in the state they had before the update of \<open>j\<close>, so a
  process that \<open>j\<close> re-queues can be taken in this unit by \<open>j\<close> or a higher
  processor only.
\<close>

theorem processors_update_and_dispatch_in_turn:
  assumes j: "j < np" "j < length (processors sj)"
    and lower: "for_processors tq [0..<j] (add_arrivals (global_time s) s) = Inr sj"
    and upd: "update_running j sj = Inr s1"
    and asg: "assign_or_idle tq j s1 = Inr s2"
    and higher: "for_processors tq [Suc j..<np] s2 = Inr s3"
  shows "time_unit tq np s = Inr (s3\<lparr>global_time := global_time s3 + 1\<rparr>) \<and>
         (\<forall>i<j. processors s3 ! i = processors sj ! i) \<and>
         processors s3 ! j = processors s2 ! j \<and>
         (proc (processors sj ! j) = None \<longrightarrow> s1 = sj) \<and>
         (\<forall>k p. proc (processors sj ! j) = Some k \<and> get_process k (processes sj) = Some p \<longrightarrow>
            get_process k (processes s1) = Some (p\<lparr>remaining := remaining p - 1\<rparr>) \<and>
            (if remaining p = 1 then
               schedule_events s1 = schedule_events sj @
                 [(k, event_start (processors sj ! j), global_time sj + 1, j + 1)] \<and>
               finished s1 = insert k (finished sj) \<and>
               mp_ready_queue s1 = mp_ready_queue sj \<and>
               proc (processors s1 ! j) = None
             else if remaining_slice (processors sj ! j) = 1 then
               schedule_events s1 = schedule_events sj @
                 [(k, event_start (processors sj ! j), global_time sj + 1, j + 1)] \<and>
               finished s1 = finished sj \<and>
               mp_ready_queue s1 = mp_ready_queue sj @ [k] \<and>
               proc (processors s1 ! j) = None
             else
               schedule_events s1 = schedule_events sj \<and>
               finished s1 = finished sj \<and>
               mp_ready_queue s1 = mp_ready_queue sj \<and>
               proc (processors s1 ! j) = Some k \<and>
               remaining_slice (processors s1 ! j) = remaining_slice (processors sj ! j) - 1)) \<and>
         (mp_ready_queue s2 = mp_ready_queue s1 \<or> mp_ready_queue s2 = tl (mp_ready_queue s1)) \<and>
         (proc (processors s1 ! j) \<noteq> None \<longrightarrow>
            mp_ready_queue s2 = mp_ready_queue s1 \<and>
            proc (processors s2 ! j) = proc (processors s1 ! j) \<and>
            remaining_slice (processors s2 ! j) = remaining_slice (processors s1 ! j)) \<and>
         (\<forall>k rest p. proc (processors s1 ! j) = None \<and> mp_ready_queue s1 = k # rest \<and>
              k \<notin> finished s1 \<and> get_process k (processes s1) = Some p \<longrightarrow>
            proc (processors s2 ! j) = Some k \<and>
            remaining_slice (processors s2 ! j) = min tq (remaining p) \<and>
            event_start (processors s2 ! j) = Some (global_time s1) \<and>
            mp_ready_queue s2 = rest)"
proof -
  have len1: "length (processors s1) = length (processors sj)"
    using upd
    by (auto simp: update_running_def Let_def set_processor_def split: option.splits if_splits)
  have j1: "j < length (processors s1)" using j(2) len1 by simp
  have body: "processor_body tq j sj = Inr s2"
    by (simp add: processor_body_def upd asg)
  have "[0..<np] = [0..<j] @ [j..<np]"
    using j(1) upt_add_eq_append [of 0 j "np - j"] by simp
  then have split: "[0..<np] = [0..<j] @ j # [Suc j..<np]"
    using j(1) by (simp add: upt_conv_Cons)
  have unit: "time_unit tq np s = Inr (s3\<lparr>global_time := global_time s3 + 1\<rparr>)"
    by (simp add: time_unit_def split for_processors_append lower body higher)
  have hi: "processors s3 ! i = processors s2 ! i" if "i \<le> j" for i
    by (rule for_processors_others [OF higher]) (use that in simp)
  have lo: "processors s2 ! i = processors sj ! i" if "i \<noteq> j" for i
    using processor_body_effect [OF body] that by simp
  have a: "\<forall>i<j. processors s3 ! i = processors sj ! i"
    using hi lo by simp
  have b: "processors s3 ! j = processors s2 ! j" using hi by simp
  have c: "proc (processors sj ! j) = None \<longrightarrow> s1 = sj"
    using upd by (auto simp: update_running_free)
  have e: "mp_ready_queue s2 = mp_ready_queue s1 \<or> mp_ready_queue s2 = tl (mp_ready_queue s1)"
    using assign_or_idle_effect [OF asg] by simp
  have f: "proc (processors s1 ! j) \<noteq> None \<longrightarrow>
            mp_ready_queue s2 = mp_ready_queue s1 \<and>
            proc (processors s2 ! j) = proc (processors s1 ! j) \<and>
            remaining_slice (processors s2 ! j) = remaining_slice (processors s1 ! j)"
    using assign_or_idle_busy [OF j1 _ asg] by blast
  show ?thesis
  proof (intro conjI allI impI, goal_cases)
    case 1 show ?case by (rule unit)
  next
    case (2 i) then show ?case using a by simp
  next
    case 3 show ?case by (rule b)
  next
    case 4 then show ?case using c by simp
  next
    case (5 k p)
    then show ?case using update_running_busy [OF j(2) _ _ upd, of k p] by simp
  next
    case (6 k p)
    then show ?case using update_running_busy [OF j(2) _ _ upd, of k p] by simp
  next
    case 7 show ?case by (rule e)
  next
    case 8 then show ?case using f by simp
  next
    case 9 then show ?case using f by simp
  next
    case 10 then show ?case using f by simp
  next
    case (11 k rest p)
    then show ?case using assign_or_idle_takes_head [OF j1 _ _ _ _ asg, of k rest p] by simp
  next
    case (12 k rest p)
    then show ?case using assign_or_idle_takes_head [OF j1 _ _ _ _ asg, of k rest p] by simp
  next
    case (13 k rest p)
    then show ?case using assign_or_idle_takes_head [OF j1 _ _ _ _ asg, of k rest p] by simp
  next
    case (14 k rest p)
    then show ?case using assign_or_idle_takes_head [OF j1 _ _ _ _ asg, of k rest p] by simp
  qed
qed

theorem processors_update_and_dispatch_in_turn_witness:
  "(1::nat) < 2 \<and> 1 < length (processors q6_after_first_processor) \<and>
   for_processors 2 [0..<1] (add_arrivals (global_time q6_state_at_5) q6_state_at_5)
     = Inr q6_after_first_processor \<and>
   update_running 1 q6_after_first_processor = Inr q6_after_update \<and>
   assign_or_idle 2 1 q6_after_update = Inr q6_after_dispatch \<and>
   for_processors 2 [Suc 1..<2] q6_after_dispatch = Inr q6_after_dispatch \<and>
   time_unit 2 2 q6_state_at_5
     = Inr (q6_after_dispatch\<lparr>global_time := global_time q6_after_dispatch + 1\<rparr>) \<and>
   proc (processors q6_after_first_processor ! 0) = None \<and>
   processors q6_after_dispatch ! 0 = processors q6_after_first_processor ! 0 \<and>
   proc (processors q6_after_first_processor ! 1) = Some ''P2'' \<and>
   get_process ''P2'' (processes q6_after_first_processor) = Some (mk_mproc ''P2'' 3 4 3) \<and>
   get_process ''P2'' (processes q6_after_update) = Some (mk_mproc ''P2'' 3 4 2) \<and>
   schedule_events q6_after_update =
     schedule_events q6_after_first_processor @ [(''P2'', Some 3, 6, 2)] \<and>
   mp_ready_queue q6_after_update = mp_ready_queue q6_after_first_processor @ [''P2''] \<and>
   proc (processors q6_after_update ! 1) = None \<and>
   proc (processors q6_after_dispatch ! 1) = Some ''P2'' \<and>
   remaining_slice (processors q6_after_dispatch ! 1) = 2 \<and>
   event_start (processors q6_after_dispatch ! 1) = Some 5 \<and>
   mp_ready_queue q6_after_dispatch = []"
proof -
  have h: "(1::nat) < 2" "1 < length (processors q6_after_first_processor)"
    "for_processors 2 [0..<1] (add_arrivals (global_time q6_state_at_5) q6_state_at_5)
       = Inr q6_after_first_processor"
    "update_running 1 q6_after_first_processor = Inr q6_after_update"
    "assign_or_idle 2 1 q6_after_update = Inr q6_after_dispatch"
    "for_processors 2 [Suc 1..<2] q6_after_dispatch = Inr q6_after_dispatch"
    by code_simp+
  have g: "proc (processors q6_after_first_processor ! 0) = None"
    "proc (processors q6_after_first_processor ! 1) = Some ''P2''"
    "get_process ''P2'' (processes q6_after_first_processor) = Some (mk_mproc ''P2'' 3 4 3)"
    "remaining_slice (processors q6_after_first_processor ! 1) = 1"
    "event_start (processors q6_after_first_processor ! 1) = Some 3"
    "global_time q6_after_first_processor = 5"
    "proc (processors q6_after_update ! 1) = None"
    "mp_ready_queue q6_after_update = ''P2'' # []"
    "''P2'' \<notin> finished q6_after_update"
    "get_process ''P2'' (processes q6_after_update) = Some (mk_mproc ''P2'' 3 4 2)"
    "global_time q6_after_update = 5"
    by code_simp+
  note t = processors_update_and_dispatch_in_turn [OF h]
  from t have unit: "time_unit 2 2 q6_state_at_5
      = Inr (q6_after_dispatch\<lparr>global_time := global_time q6_after_dispatch + 1\<rparr>)"
    and low: "\<forall>i<1. processors q6_after_dispatch ! i = processors q6_after_first_processor ! i"
    by blast+
  from t have "\<forall>k p. proc (processors q6_after_first_processor ! 1) = Some k \<and>
        get_process k (processes q6_after_first_processor) = Some p \<longrightarrow>
        get_process k (processes q6_after_update) = Some (p\<lparr>remaining := remaining p - 1\<rparr>) \<and>
        (if remaining p = 1 then
           schedule_events q6_after_update = schedule_events q6_after_first_processor @
             [(k, event_start (processors q6_after_first_processor ! 1),
               global_time q6_after_first_processor + 1, 1 + 1)] \<and>
           finished q6_after_update = insert k (finished q6_after_first_processor) \<and>
           mp_ready_queue q6_after_update = mp_ready_queue q6_after_first_processor \<and>
           proc (processors q6_after_update ! 1) = None
         else if remaining_slice (processors q6_after_first_processor ! 1) = 1 then
           schedule_events q6_after_update = schedule_events q6_after_first_processor @
             [(k, event_start (processors q6_after_first_processor ! 1),
               global_time q6_after_first_processor + 1, 1 + 1)] \<and>
           finished q6_after_update = finished q6_after_first_processor \<and>
           mp_ready_queue q6_after_update = mp_ready_queue q6_after_first_processor @ [k] \<and>
           proc (processors q6_after_update ! 1) = None
         else
           schedule_events q6_after_update = schedule_events q6_after_first_processor \<and>
           finished q6_after_update = finished q6_after_first_processor \<and>
           mp_ready_queue q6_after_update = mp_ready_queue q6_after_first_processor \<and>
           proc (processors q6_after_update ! 1) = Some k \<and>
           remaining_slice (processors q6_after_update ! 1) =
             remaining_slice (processors q6_after_first_processor ! 1) - 1)"
    by blast
  from this [rule_format, of "''P2''" "mk_mproc ''P2'' 3 4 3"] g(2,3,4,5,6)
  have u: "schedule_events q6_after_update =
             schedule_events q6_after_first_processor @ [(''P2'', Some 3, 6, 2)]"
    "mp_ready_queue q6_after_update = mp_ready_queue q6_after_first_processor @ [''P2'']"
    by (simp_all add: mk_mproc_def)
  from t have "\<forall>k rest p. proc (processors q6_after_update ! 1) = None \<and>
        mp_ready_queue q6_after_update = k # rest \<and> k \<notin> finished q6_after_update \<and>
        get_process k (processes q6_after_update) = Some p \<longrightarrow>
        proc (processors q6_after_dispatch ! 1) = Some k \<and>
        remaining_slice (processors q6_after_dispatch ! 1) = min 2 (remaining p) \<and>
        event_start (processors q6_after_dispatch ! 1) = Some (global_time q6_after_update) \<and>
        mp_ready_queue q6_after_dispatch = rest"
    by blast
  from this [rule_format, of "''P2''" "[]" "mk_mproc ''P2'' 3 4 2"] g(7,8,9,10,11)
  have d: "proc (processors q6_after_dispatch ! 1) = Some ''P2''"
    "remaining_slice (processors q6_after_dispatch ! 1) = 2"
    "event_start (processors q6_after_dispatch ! 1) = Some 5"
    "mp_ready_queue q6_after_dispatch = []"
    by (simp_all add: mk_mproc_def)
  from low have l0: "processors q6_after_dispatch ! 0 = processors q6_after_first_processor ! 0"
    by simp
  show ?thesis
    by (intro conjI h unit g(1) l0 g(2) g(3) g(10) u g(7) d)
qed

text \<open>
  C8, as the code has it: for valid input the timelines of FCFS, of the
  non-preemptive SJF and of SRTF have no two adjacent segments with the same
  owner. (The Round-Robin schedulers append one segment per slice and merge
  nothing, see \<open>rr_not_coalesced\<close>.)
\<close>

theorem run_to_completion_schedulers_coalesced:
  assumes "valid_input ps"
  shows "coalesced (fcfs_schedule ps) \<and>
         (\<exists>tml. sjf_non_preemptive_schedule ps = Some (Inr tml) \<and> coalesced tml) \<and>
         (\<exists>tml. sjf_preemptive_schedule ps = Some tml \<and> coalesced tml)"
  using fcfs_total_correctness [OF assms] sjf_total_correctness [OF assms]
    srtf_total_correctness [OF assms]
  by blast

theorem run_to_completion_schedulers_coalesced_witness:
  "valid_input q2_processes \<and>
   coalesced (fcfs_schedule q2_processes) \<and>
   (\<exists>tml. sjf_non_preemptive_schedule q2_processes = Some (Inr tml) \<and> coalesced tml) \<and>
   (\<exists>tml. sjf_preemptive_schedule q2_processes = Some tml \<and> coalesced tml)"
proof -
  have valid: "valid_input q2_processes"
    by (simp add: valid_input_def q2_processes_def mk_proc_def Idle_def)
  from valid run_to_completion_schedulers_coalesced [OF valid] show ?thesis
    by (intro conjI) blast+
qed

text \<open>
  C9, as the code has it: no scheduler validates its input and none has an
  invalid-input error. On the empty process list every scheduler returns the
  empty timeline, whatever the quantum and the number of processors, and FCFS
  returns for every process list a timeline with at least one segment per process.
\<close>

theorem no_input_validation:
  "fcfs_schedule [] = [] \<and>
   sjf_non_preemptive_schedule [] = Some (Inr []) \<and>
   sjf_preemptive_schedule [] = Some [] \<and>
   round_robin_schedule [] time_quantum = Some [] \<and>
   multi_rr_schedule [] time_quantum num_proc = Some (Inr []) \<and>
   length ps \<le> length (fcfs_schedule ps)"
proof -
  have a: "sjf_non_preemptive_schedule [] = Some (Inr [])"
    unfolding sjf_non_preemptive_schedule_def
    by (subst sjf_loop.simps) (simp add: sjf_init_def)
  have b: "sjf_preemptive_schedule [] = Some []"
    unfolding sjf_preemptive_schedule_def
    by (subst srtf_loop.simps) (simp add: srtf_init_def)
  have "admit_arrived [] 0 0 [] = (0, [])"
    by (subst admit_arrived.simps) simp
  then have c: "round_robin_schedule [] time_quantum = Some []"
    unfolding round_robin_schedule_def
    by (subst rr_loop.simps) (simp add: rr_init_def)
  have d: "multi_rr_schedule [] time_quantum num_proc = Some (Inr [])"
    unfolding multi_rr_schedule_def
    by (subst simulation_loop.simps) (simp add: init_state_def)
  have len: "length T + length qs \<le> length (fcfs_loop qs T t)" for qs T t
  proof (induction qs arbitrary: T t)
    case Nil
    then show ?case by simp
  next
    case (Cons a qs)
    show ?case
    proof (cases "t < arrival a")
      case True
      with Cons [of "T @ [mk_seg Idle t (arrival a)] @ [mk_seg (pid a) (arrival a) (arrival a + burst a)]"
          "arrival a + burst a"]
      show ?thesis by simp
    next
      case False
      with Cons [of "T @ [mk_seg (pid a) t (t + burst a)]" "t + burst a"]
      show ?thesis by simp
    qed
  qed
  have e: "length ps \<le> length (fcfs_schedule ps)"
    using len [of "[]" "sort_key arrival ps" 0] by (simp add: fcfs_schedule_def)
  from a b c d e show ?thesis
    by (simp add: fcfs_schedule_def)
qed

text \<open>
  C10: in a store where the caller's list object \<open>l\<close> exists and holds valid
  input, each of the four single-processor schedulers (Round-Robin with a
  positive quantum) returns the timeline that the scheduler on values gives for
  the dictionaries of \<open>l\<close>, and leaves \<open>l\<close>, every process dictionary and every
  other list object of the caller unchanged: the lists that a scheduler sorts,
  appends to and pops from are objects of its own. A second call on the same
  objects therefore starts from the same input and returns the same timeline.
\<close>

theorem schedulers_leave_input_unchanged:
  assumes valid: "valid_input (load st l)" and l: "l < next_list st" and q: "0 < q"
  shows "leaves_input_unchanged (\<lambda>l st. Some (fcfs_schedule_r l st))
           (\<lambda>ps. Some (fcfs_schedule ps)) l st \<and>
         leaves_input_unchanged sjf_non_preemptive_schedule_r sjf_non_preemptive_schedule l st \<and>
         leaves_input_unchanged sjf_preemptive_schedule_r sjf_preemptive_schedule l st \<and>
         leaves_input_unchanged (\<lambda>l. round_robin_schedule_r l q)
           (\<lambda>ps. round_robin_schedule ps q) l st"
proof (intro conjI)
  show "leaves_input_unchanged (\<lambda>l st. Some (fcfs_schedule_r l st))
          (\<lambda>ps. Some (fcfs_schedule ps)) l st"
  proof (rule leaves_input_unchangedI [where f = "\<lambda>ps. Some (fcfs_schedule ps)"
        and f_r = "\<lambda>l st. Some (fcfs_schedule_r l st)", OF _ refl l])
    fix st y
    assume "Some (fcfs_schedule (load st l)) = Some y"
    then show "\<exists>st'. Some (fcfs_schedule_r l st) = Some (y, st') \<and> unchanged st st'"
      using fcfs_schedule_r_refines [of l st] by auto
  qed
next
  from sjf_total_correctness [OF valid]
  obtain y where v: "sjf_non_preemptive_schedule (load st l) = Some y" by blast
  show "leaves_input_unchanged sjf_non_preemptive_schedule_r sjf_non_preemptive_schedule l st"
  proof (rule leaves_input_unchangedI [where f = sjf_non_preemptive_schedule
        and f_r = sjf_non_preemptive_schedule_r, OF _ v l])
    fix st y
    assume "sjf_non_preemptive_schedule (load st l) = Some y" "l < next_list st"
    then show "\<exists>st'. sjf_non_preemptive_schedule_r l st = Some (y, st') \<and> unchanged st st'"
      by (rule sjf_schedule_r_refines)
  qed
next
  from srtf_total_correctness [OF valid]
  obtain y where v: "sjf_preemptive_schedule (load st l) = Some y" by blast
  show "leaves_input_unchanged sjf_preemptive_schedule_r sjf_preemptive_schedule l st"
  proof (rule leaves_input_unchangedI [where f = sjf_preemptive_schedule
        and f_r = sjf_preemptive_schedule_r, OF _ v l])
    fix st y
    assume "sjf_preemptive_schedule (load st l) = Some y"
    then show "\<exists>st'. sjf_preemptive_schedule_r l st = Some (y, st') \<and> unchanged st st'"
      by (rule srtf_schedule_r_refines)
  qed
next
  from rr_total_correctness [OF valid q]
  obtain y where v: "round_robin_schedule (load st l) q = Some y" by blast
  show "leaves_input_unchanged (\<lambda>l. round_robin_schedule_r l q)
          (\<lambda>ps. round_robin_schedule ps q) l st"
  proof (rule leaves_input_unchangedI [where f = "\<lambda>ps. round_robin_schedule ps q"
        and f_r = "\<lambda>l. round_robin_schedule_r l q", OF _ v l])
    fix st y
    assume "round_robin_schedule (load st l) q = Some y" "l < next_list st"
    then show "\<exists>st'. round_robin_schedule_r l q st = Some (y, st') \<and> unchanged st st'"
      by (rule rr_schedule_r_refines)
  qed
qed

theorem schedulers_leave_input_unchanged_witness:
  "valid_input (load example_store 0) \<and> 0 < next_list example_store \<and>
   leaves_input_unchanged (\<lambda>l st. Some (fcfs_schedule_r l st))
     (\<lambda>ps. Some (fcfs_schedule ps)) 0 example_store \<and>
   leaves_input_unchanged sjf_non_preemptive_schedule_r sjf_non_preemptive_schedule
     0 example_store \<and>
   leaves_input_unchanged sjf_preemptive_schedule_r sjf_preemptive_schedule 0 example_store \<and>
   leaves_input_unchanged (\<lambda>l. round_robin_schedule_r l 2)
     (\<lambda>ps. round_robin_schedule ps 2) 0 example_store"
  using schedulers_leave_input_unchanged [of example_store 0 2]
  by (simp add: example_store_def load_def valid_input_def mk_proc_def Idle_def)

end
